theory Spec2Isabelle
  imports Complex_Main "HOL-Library.Sublist" "HOL-Library.Multiset"
begin

section \<open>Python strings\<close>

text \<open>
  The scraper is Python 3: a \<open>str\<close> is a sequence of Unicode code points, and
  \<open>len\<close>, slicing, \<open>in\<close> and the regular expressions all count code points.
  Arabic letters do not fit into the 8-bit \<open>char\<close> of HOL, so a string is modelled
  as the list of its code points. Literals of the source are written with the code
  points they have in the source file; \<open>ascii\<close> embeds an ASCII literal.
\<close>

type_synonym ustring = "nat list"

definition ascii :: "string \<Rightarrow> ustring" where
  "ascii s = map of_char s"

text \<open>
  \<open>str.isspace\<close>, \<open>str.strip()\<close> without argument and the class \<open>\s\<close> of the
  \<open>re\<close> module (on \<open>str\<close> patterns) share one table of white space.
\<close>

definition is_space :: "nat \<Rightarrow> bool" where
  "is_space c \<longleftrightarrow>
     (0x9 \<le> c \<and> c \<le> 0xD) \<or> (0x1C \<le> c \<and> c \<le> 0x20) \<or> c = 0x85 \<or> c = 0xA0 \<or>
     c = 0x1680 \<or> (0x2000 \<le> c \<and> c \<le> 0x200A) \<or> c = 0x2028 \<or> c = 0x2029 \<or>
     c = 0x202F \<or> c = 0x205F \<or> c = 0x3000"

text \<open>
  The decimal digits (general category Nd, Unicode 14 as shipped with CPython 3.11):
  the class \<open>\d\<close>, \<open>str.isdecimal\<close> and the characters \<open>int()\<close> accepts. Every
  block holds the ten digits 0 to 9 in order; the table lists the code point of each
  block's zero.
\<close>

definition nd_starts :: "nat list" where
  "nd_starts =
    [0x30, 0x660, 0x6F0, 0x7C0, 0x966, 0x9E6, 0xA66, 0xAE6, 0xB66, 0xBE6, 0xC66, 0xCE6,
     0xD66, 0xDE6, 0xE50, 0xED0, 0xF20, 0x1040, 0x1090, 0x17E0, 0x1810, 0x1946, 0x19D0,
     0x1A80, 0x1A90, 0x1B50, 0x1BB0, 0x1C40, 0x1C50, 0xA620, 0xA8D0, 0xA900, 0xA9D0,
     0xA9F0, 0xAA50, 0xABF0, 0xFF10, 0x104A0, 0x10D30, 0x11066, 0x110F0, 0x11136,
     0x111D0, 0x112F0, 0x11450, 0x114D0, 0x11650, 0x116C0, 0x11730, 0x118E0, 0x11950,
     0x11C50, 0x11D50, 0x11DA0, 0x16A60, 0x16AC0, 0x16B50, 0x1D7CE, 0x1D7D8, 0x1D7E2,
     0x1D7EC, 0x1D7F6, 0x1E140, 0x1E2F0, 0x1E950, 0x1FBF0]"

definition nd_block :: "nat \<Rightarrow> nat option" where
  "nd_block c = find (\<lambda>s. s \<le> c \<and> c < s + 10) nd_starts"

definition is_decimal :: "nat \<Rightarrow> bool" where
  "is_decimal c \<longleftrightarrow> nd_block c \<noteq> None"

definition digit_val :: "nat \<Rightarrow> nat" where
  "digit_val c = (case nd_block c of Some s \<Rightarrow> c - s | None \<Rightarrow> 0)"

text \<open>
  \<open>str.isdigit\<close> of a single character: the decimal digits and the further
  characters of numeric type Digit (superscripts, circled digits and the like).
\<close>

definition other_digit_ranges :: "(nat \<times> nat) list" where
  "other_digit_ranges =
    [(0xB2, 0xB3), (0xB9, 0xB9), (0x1369, 0x1371), (0x19DA, 0x19DA), (0x2070, 0x2070),
     (0x2074, 0x2079), (0x2080, 0x2089), (0x2460, 0x2468), (0x2474, 0x247C),
     (0x2488, 0x2490), (0x24EA, 0x24EA), (0x24F5, 0x24FD), (0x24FF, 0x24FF),
     (0x2776, 0x277E), (0x2780, 0x2788), (0x278A, 0x2792), (0x10A40, 0x10A43),
     (0x10E60, 0x10E68), (0x11052, 0x1105A), (0x1F100, 0x1F10A)]"

definition char_isdigit :: "nat \<Rightarrow> bool" where
  "char_isdigit c \<longleftrightarrow> is_decimal c \<or> list_ex (\<lambda>(a, b). a \<le> c \<and> c \<le> b) other_digit_ranges"

definition py_strip :: "ustring \<Rightarrow> ustring" where
  "py_strip s = rev (dropWhile is_space (rev (dropWhile is_space s)))"

definition startswith :: "ustring \<Rightarrow> ustring \<Rightarrow> bool" where
  "startswith s p \<longleftrightarrow> take (length p) s = p"

text \<open>\<open>p in s\<close> for strings: \<open>p\<close> occurs in \<open>s\<close> as a contiguous substring.\<close>

fun contains :: "ustring \<Rightarrow> ustring \<Rightarrow> bool" where
  "contains [] p = (p = [])"
| "contains (c # cs) p = (startswith (c # cs) p \<or> contains cs p)"

text \<open>\<open>s.replace(a, r)\<close> for a pattern \<open>a\<close> of one character.\<close>

definition replace_char :: "nat \<Rightarrow> ustring \<Rightarrow> ustring \<Rightarrow> ustring" where
  "replace_char a r s = concat (map (\<lambda>c. if c = a then r else [c]) s)"

text \<open>\<open>len(s.split())\<close>: the number of maximal runs of characters that are not white space.\<close>

fun count_words :: "bool \<Rightarrow> ustring \<Rightarrow> nat" where
  "count_words in_word [] = 0"
| "count_words in_word (c # cs) =
     (if is_space c then count_words False cs
      else (if in_word then 0 else 1) + count_words True cs)"

definition ascii_digit :: "nat \<Rightarrow> bool" where
  "ascii_digit c \<longleftrightarrow> 0x30 \<le> c \<and> c \<le> 0x39"

subsection \<open>\<open>int()\<close> and \<open>str()\<close> on integers\<close>

text \<open>
  \<open>int(s)\<close> in base ten: white space around the literal is dropped, one sign may
  lead, the digits may be any decimal digits of Unicode, and single underscores may
  separate digits. Everything else raises \<open>ValueError\<close>, modelled as \<open>None\<close>.

  The white space of \<open>int()\<close> is not quite that of \<open>str.strip()\<close>: the
  separators U+001C to U+001F are kept, and the literal is refused for them.

  A literal of more than 4300 digits is refused as well, whatever its value (the
  interpreter's limit \<open>sys.get_int_max_str_digits()\<close>, which the scraper leaves at
  its default); underscores do not count as digits.
\<close>

definition is_int_space :: "nat \<Rightarrow> bool" where
  "is_int_space c \<longleftrightarrow> is_space c \<and> \<not> (0x1C \<le> c \<and> c \<le> 0x1F)"

definition int_strip :: "ustring \<Rightarrow> ustring" where
  "int_strip s = rev (dropWhile is_int_space (rev (dropWhile is_int_space s)))"

definition int_max_str_digits :: nat where
  "int_max_str_digits = 4300"

definition underscore :: nat where
  "underscore = 0x5F"

fun no_double_underscore :: "ustring \<Rightarrow> bool" where
  "no_double_underscore (a # b # cs) =
     (\<not> (a = underscore \<and> b = underscore) \<and> no_double_underscore (b # cs))"
| "no_double_underscore _ = True"

definition digits_value :: "ustring \<Rightarrow> nat" where
  "digits_value ds = foldl (\<lambda>a c. 10 * a + digit_val c) 0 ds"

definition int_body :: "ustring \<Rightarrow> nat option" where
  "int_body s =
     (if s = [] \<or> hd s = underscore \<or> last s = underscore \<or> \<not> no_double_underscore s
         \<or> \<not> list_all (\<lambda>c. c = underscore \<or> is_decimal c) s
         \<or> int_max_str_digits < length (filter (\<lambda>c. c \<noteq> underscore) s)
      then None
      else Some (digits_value (filter (\<lambda>c. c \<noteq> underscore) s)))"

definition py_int :: "ustring \<Rightarrow> int option" where
  "py_int s =
     (case int_strip s of
        [] \<Rightarrow> None
      | c # cs \<Rightarrow>
          if c = 0x2D then map_option (\<lambda>n. - int n) (int_body cs)
          else if c = 0x2B then map_option int (int_body cs)
          else map_option int (int_body (c # cs)))"

function dec_digits :: "nat \<Rightarrow> ustring" where
  "dec_digits n = (if n < 10 then [0x30 + n] else dec_digits (n div 10) @ [0x30 + n mod 10])"
  by pat_completeness auto
termination
  by (relation "measure id") auto

declare dec_digits.simps [simp del]

definition py_str :: "int \<Rightarrow> ustring" where
  "py_str i = (if i < 0 then 0x2D # dec_digits (nat (- i)) else dec_digits (nat i))"

section \<open>Errors\<close>

text \<open>
  The exceptions that the modelled functions let escape: \<open>ValueError\<close> (from
  \<open>int()\<close>, from a \<open>range\<close> with step zero, from a pool without workers),
  \<open>ZeroDivisionError\<close>, and the scraper's own \<open>EnhancedShamelaScraperError\<close>.
\<close>

datatype py_error = ValueError | ZeroDivisionError | EnhancedShamelaScraperError

section \<open>Book identifiers\<close>

text \<open>
  \<^verbatim>\<open>
  def normalize_book_id(book_id: str) -> str:
      book_id = book_id.strip()
      if book_id.startswith('BK'):
          return str(int(book_id[2:]))
      return book_id
  \<close>
\<close>

definition normalize_book_id :: "ustring \<Rightarrow> py_error + ustring" where
  "normalize_book_id book_id =
     (let book_id = py_strip book_id in
      if startswith book_id (ascii ''BK'') then
        (case py_int (drop 2 book_id) of
           None \<Rightarrow> Inl ValueError
         | Some i \<Rightarrow> Inr (py_str i))
      else Inr book_id)"

section \<open>The regular expressions of the scraper\<close>

text \<open>
  Every pattern of the modelled functions is a sequence of quantified character
  classes (\<open>\s*\<close>, \<open>[:\<dots>]?\<close>, \<open>\d{4}\<close>, \<open>(\d+)\<close>, a literal character), with
  at most one capturing group, which wraps a single quantified class. An item is such a
  class with its least and largest number of repetitions (\<open>None\<close>: unbounded) and a
  flag telling whether it lies in group 1. All quantifiers of the source are greedy.
\<close>

datatype item = Item (cls: "nat \<Rightarrow> bool") (lo: nat) (hi: "nat option") (grp: bool)

definition lit :: "nat \<Rightarrow> item" where
  "lit c = Item (\<lambda>x. x = c) 1 (Some 1) False"

definition lits :: "ustring \<Rightarrow> item list" where
  "lits s = map lit s"

fun first_some :: "'a option list \<Rightarrow> 'a option" where
  "first_some [] = None"
| "first_some (None # xs) = first_some xs"
| "first_some (Some x # xs) = Some x"

text \<open>
  The same search written as the loop it is: try \<open>n\<close> repetitions, then \<open>n - 1\<close>,
  down to \<open>l\<close>, and stop at the first success.
\<close>

fun give_back :: "(nat \<Rightarrow> 'a option) \<Rightarrow> nat \<Rightarrow> nat \<Rightarrow> 'a option" where
  "give_back f l n =
     (if n < l then None
      else case f n of
             Some r \<Rightarrow> Some r
           | None \<Rightarrow> (if n = 0 then None else give_back f l (n - 1)))"

declare give_back.simps [simp del]

text \<open>
  Matching at the start of \<open>s\<close>, as the backtracking matcher of \<open>re\<close> does: an item
  first takes as many characters as it may and gives them back one by one until the
  rest of the pattern matches. The result is the length of the match and the text of
  group 1.
\<close>

fun re_match :: "item list \<Rightarrow> ustring \<Rightarrow> (nat \<times> ustring) option" where
  "re_match [] s = Some (0, [])"
| "re_match (Item c l h g # rest) s =
     (let avail = length (takeWhile c s);
          top = (case h of None \<Rightarrow> avail | Some m \<Rightarrow> min m avail)
      in first_some
           (map (\<lambda>n. map_option (\<lambda>(len, cap). (n + len, (if g then take n s else []) @ cap))
                        (re_match rest (drop n s)))
                (rev [l..<Suc top])))"

text \<open>
  What a match is, independently of the matcher: the matched text splits into one
  block per item, each block made of characters of the item's class and of a length
  the quantifier allows. Group 1 is the text of the blocks of the flagged items.
\<close>

fun fits :: "item list \<Rightarrow> ustring list \<Rightarrow> bool" where
  "fits [] [] = True"
| "fits (Item c l h g # p) (b # bs) =
     (list_all c b \<and> l \<le> length b \<and> (case h of None \<Rightarrow> True | Some m \<Rightarrow> length b \<le> m) \<and>
      fits p bs)"
| "fits _ _ = False"

fun group1 :: "item list \<Rightarrow> ustring list \<Rightarrow> ustring" where
  "group1 (Item c l h g # p) (b # bs) = (if g then b else []) @ group1 p bs"
| "group1 _ _ = []"

text \<open>
  \<open>re.search\<close>: the leftmost position with a match; the result is the start, the
  length and group 1 of that match.
\<close>

fun re_search :: "item list \<Rightarrow> ustring \<Rightarrow> (nat \<times> nat \<times> ustring) option" where
  "re_search p [] = map_option (\<lambda>m. (0, m)) (re_match p [])"
| "re_search p (c # cs) =
     (case re_match p (c # cs) of
        Some m \<Rightarrow> Some (0, m)
      | None \<Rightarrow> map_option (\<lambda>(i, m). (Suc i, m)) (re_search p cs))"

text \<open>
  \<open>re.sub\<close> for a pattern \<open>C{l,}\<close> of one class (\<open>\s+\<close>, \<open>[\r\n\t]+\<close>, \<open>\n{3,}\<close>):
  every maximal run of at least \<open>l\<close> characters of the class is replaced, shorter
  runs stay.
\<close>

function re_sub_run :: "(nat \<Rightarrow> bool) \<Rightarrow> nat \<Rightarrow> ustring \<Rightarrow> ustring \<Rightarrow> ustring" where
  "re_sub_run c l repl [] = []"
| "re_sub_run c l repl (x # xs) =
     (if c x then
        (if l \<le> Suc (length (takeWhile c xs)) then repl else x # takeWhile c xs)
        @ re_sub_run c l repl (dropWhile c xs)
      else x # re_sub_run c l repl xs)"
  by pat_completeness auto
termination
  by (relation "measure (\<lambda>(c, l, repl, s). length s)")
     (auto simp: less_Suc_eq_le length_dropWhile_le)

section \<open>Text cleaning\<close>

text \<open>
  \<^verbatim>\<open>
  def clean_text(text: str) -> str:
      if not text:
          return ""
      text = re.sub(r'\s+', ' ', text.strip())
      text = re.sub(r'[\r\n\t]+', ' ', text)
      text = text.replace('\u200c', '').replace('\u200d', '')
      return text.strip()
  \<close>
\<close>

definition is_crlftab :: "nat \<Rightarrow> bool" where
  "is_crlftab c \<longleftrightarrow> c = 0xD \<or> c = 0xA \<or> c = 0x9"

definition clean_text :: "ustring \<Rightarrow> ustring" where
  "clean_text text =
     (if text = [] then []
      else
        let text = re_sub_run is_space 1 [0x20] (py_strip text);
            text = re_sub_run is_crlftab 1 [0x20] text;
            text = replace_char 0x200D [] (replace_char 0x200C [] text)
        in py_strip text)"

section \<open>Printed page numbers\<close>

text \<open>
  \<^verbatim>\<open>
  def convert_arabic_hindi_digits(text: str) -> str:
      arabic_hindi_map = {U+0660: '0', U+0661: '1', ..., U+0669: '9'}
      for arabic, western in arabic_hindi_map.items():
          text = text.replace(arabic, western)
      return text
  \<close>
\<close>

definition arabic_hindi_map :: "(nat \<times> nat) list" where
  "arabic_hindi_map =
     [(0x660, 0x30), (0x661, 0x31), (0x662, 0x32), (0x663, 0x33), (0x664, 0x34),
      (0x665, 0x35), (0x666, 0x36), (0x667, 0x37), (0x668, 0x38), (0x669, 0x39)]"

definition convert_arabic_hindi_digits :: "ustring \<Rightarrow> ustring" where
  "convert_arabic_hindi_digits text =
     foldl (\<lambda>t (arabic, western). replace_char arabic [western] t) text arabic_hindi_map"

text \<open>What the conversion does to a single character.\<close>

definition western_digit :: "nat \<Rightarrow> nat" where
  "western_digit c = (if 0x660 \<le> c \<and> c \<le> 0x669 then c - 0x630 else c)"

text \<open>
  \<^verbatim>\<open>
  def extract_printed_page_number(soup_or_title) -> Optional[int]:
      ...   # title_text: the text of <title>, "" when the page has none
      if not title_text:
          return None
      pattern = r'[<U+0635><U+0633>]\s*[:<U+FF1A>]?\s*([0-9\u0660-\u0669]+)'
      match = re.search(pattern, title_text)
      if match:
          page_number_text = match.group(1)
          converted_text = convert_arabic_hindi_digits(page_number_text)
          try:
              return int(converted_text)
          except ValueError:
              return None
      return None
  \<close>
\<close>

definition is_sad_or_seen :: "nat \<Rightarrow> bool" where
  "is_sad_or_seen c \<longleftrightarrow> c = 0x635 \<or> c = 0x633"

definition is_colon :: "nat \<Rightarrow> bool" where
  "is_colon c \<longleftrightarrow> c = 0x3A \<or> c = 0xFF1A"

definition is_page_digit :: "nat \<Rightarrow> bool" where
  "is_page_digit c \<longleftrightarrow> ascii_digit c \<or> (0x660 \<le> c \<and> c \<le> 0x669)"

definition printed_page_pattern :: "item list" where
  "printed_page_pattern =
     [Item is_sad_or_seen 1 (Some 1) False, Item is_space 0 None False,
      Item is_colon 0 (Some 1) False, Item is_space 0 None False,
      Item is_page_digit 1 None True]"

definition extract_printed_page_number :: "ustring \<Rightarrow> int option" where
  "extract_printed_page_number title_text =
     (if title_text = [] then None
      else case re_search printed_page_pattern title_text of
             Some (start, len, page_number_text) \<Rightarrow>
               py_int (convert_arabic_hindi_digits page_number_text)
           | None \<Rightarrow> None)"

section \<open>Pages\<close>

text \<open>
  The dataclass \<open>PageContent\<close>, field by field. \<open>Optional\<close> fields are options;
  Python integers are unbounded.
\<close>

record PageContent =
  page_number :: int
  content :: ustring
  html_content :: "ustring option"
  volume_number :: "int option"
  chapter_id :: "int option"
  word_count :: "nat option"
  original_page_number :: "int option"
  page_index_internal :: "int option"
  printed_missing :: bool
  internal_index :: "int option"

text \<open>
  What \<open>extract_enhanced_page_content\<close> reads from the parsed reading page
  (\<open>soup\<close>): the text of the \<open><title>\<close> element if there is one, the text of the
  main container as \<open>get_text(separator="\n", strip=True)\<close> returns it after the
  unwanted elements were removed, and the container's markup. The HTML parser itself is
  outside the model.
\<close>

record reading_page =
  title_tag :: "ustring option"
  body_text :: ustring
  body_html :: ustring

definition title_text_of :: "reading_page \<Rightarrow> ustring" where
  "title_text_of soup = (case title_tag soup of None \<Rightarrow> [] | Some t \<Rightarrow> t)"

definition is_newline :: "nat \<Rightarrow> bool" where
  "is_newline c \<longleftrightarrow> c = 0xA"

text \<open>
  \<^verbatim>\<open>
  content = main_content.get_text(separator="\n", strip=True)
  content = re.sub(r'\n{3,}', '\n\n', content)
  content = content.strip()
  html_content = str(main_content) if not config.memory_efficient else None

  printed_page_number = None
  page_index_internal = page_number
  printed_missing = False
  if has_original_pagination:
      printed_page_number = extract_printed_page_number(soup)
      if printed_page_number is not None:
          page_number = printed_page_number
      else:
          page_number = page_index_internal
          printed_missing = True
  word_count = len(content.split()) if content else 0
  page_content = PageContent(
      page_number=page_number, content=content, html_content=html_content,
      word_count=word_count,
      original_page_number=printed_page_number if has_original_pagination else None,
      page_index_internal=page_index_internal,
      printed_missing=printed_missing if has_original_pagination else False,
      internal_index=page_index_internal)
  \<close>
  The process-wide cache of finished pages (\<open>config.skip_existing\<close>) only returns what
  an earlier call of this function built for the same page, and is left out.
\<close>

definition extract_enhanced_page_content ::
  "int \<Rightarrow> bool \<Rightarrow> bool \<Rightarrow> reading_page \<Rightarrow> PageContent" where
  "extract_enhanced_page_content page_no has_original_pagination memory_efficient_flag soup =
     (let text = py_strip (re_sub_run is_newline 3 [0xA, 0xA] (body_text soup));
          html = (if memory_efficient_flag then None else Some (body_html soup));
          index_internal = page_no;
          printed_page_number =
            (if has_original_pagination then extract_printed_page_number (title_text_of soup)
             else None);
          number =
            (if has_original_pagination then
               (case printed_page_number of Some p \<Rightarrow> p | None \<Rightarrow> index_internal)
             else page_no);
          missing = (has_original_pagination \<and> printed_page_number = None)
      in \<lparr> page_number = number, content = text, html_content = html,
           volume_number = None, chapter_id = None,
           word_count = Some (count_words False text),
           original_page_number = (if has_original_pagination then printed_page_number else None),
           page_index_internal = Some index_internal,
           printed_missing = (if has_original_pagination then missing else False),
           internal_index = Some index_internal \<rparr>)"

subsection \<open>The threaded extraction\<close>



subsection \<open>The asynchronous extraction\<close>











subsection \<open>All pages of a book\<close>





section \<open>The title of a book\<close>

text \<open>
  \<^verbatim>\<open>
  title_selectors = ["h1.book-title", "h1", ".book-title", "title"]
  title = ""
  for selector in title_selectors:
      element = soup.select_one(selector)
      if element:
          title = clean_text(element.get_text())
          if len(title) > 3:
              break
  if not title:
      raise EnhancedShamelaScraperError(...)
  \<close>
  The landing page is seen through \<open>select_one\<close>: for a selector, the text of the
  first element it matches, if any.
\<close>

definition title_selectors :: "ustring list" where
  "title_selectors = [ascii ''h1.book-title'', ascii ''h1'', ascii ''.book-title'', ascii ''title'']"

fun title_loop :: "(ustring \<Rightarrow> ustring option) \<Rightarrow> ustring \<Rightarrow> ustring list \<Rightarrow> ustring" where
  "title_loop select_one title [] = title"
| "title_loop select_one title (selector # rest) =
     (case select_one selector of
        None \<Rightarrow> title_loop select_one title rest
      | Some text \<Rightarrow>
          (let title = clean_text text
           in if 3 < length title then title else title_loop select_one title rest))"

definition extract_title :: "(ustring \<Rightarrow> ustring option) \<Rightarrow> py_error + ustring" where
  "extract_title select_one =
     (let title = title_loop select_one [] title_selectors
      in if title = [] then Inl EnhancedShamelaScraperError else Inr title)"

text \<open>The cleaned texts of the selectors that match an element, in the order of the selectors.\<close>

definition candidate_titles :: "(ustring \<Rightarrow> ustring option) \<Rightarrow> ustring list \<Rightarrow> ustring list" where
  "candidate_titles select_one selectors =
     List.map_filter (\<lambda>selector. map_option clean_text (select_one selector)) selectors"

text \<open>A landing page whose only match is a \<open><title>\<close> element reading \<open>ab\<close>.\<close>

definition short_title_page :: "ustring \<Rightarrow> ustring option" where
  "short_title_page selector = (if selector = ascii ''title'' then Some (ascii ''ab'') else None)"

section \<open>Edition and year of publication\<close>



subsection \<open>The number of an edition\<close>

text \<open>
  The dictionary \<open>word_to_number\<close> in its insertion order: the Arabic ordinals from
  \<open>al-ula\<close> (first) to \<open>al-ashira\<close> (tenth).
\<close>

definition word_to_number :: "(ustring \<times> int) list" where
  "word_to_number =
     [([0x627, 0x644, 0x623, 0x648, 0x644, 0x649], 1),
      ([0x627, 0x644, 0x62B, 0x627, 0x646, 0x64A, 0x629], 2),
      ([0x627, 0x644, 0x62B, 0x627, 0x644, 0x62B, 0x629], 3),
      ([0x627, 0x644, 0x631, 0x627, 0x628, 0x639, 0x629], 4),
      ([0x627, 0x644, 0x62E, 0x627, 0x645, 0x633, 0x629], 5),
      ([0x627, 0x644, 0x633, 0x627, 0x62F, 0x633, 0x629], 6),
      ([0x627, 0x644, 0x633, 0x627, 0x628, 0x639, 0x629], 7),
      ([0x627, 0x644, 0x62B, 0x627, 0x645, 0x646, 0x629], 8),
      ([0x627, 0x644, 0x62A, 0x627, 0x633, 0x639, 0x629], 9),
      ([0x627, 0x644, 0x639, 0x627, 0x634, 0x631, 0x629], 10)]"

text \<open>
  The words \<open>al-tab'a\<close> (the edition) and \<open>tab'a\<close> (edition), and the letter
  \<open>ta\<close> (U+0637) that abbreviates them.
\<close>

definition al_taba :: ustring where
  "al_taba = [0x627, 0x644, 0x637, 0x628, 0x639, 0x629]"

definition taba :: ustring where
  "taba = [0x637, 0x628, 0x639, 0x629]"

definition ta :: nat where
  "ta = 0x637"

definition spaces0 :: item where
  "spaces0 = Item is_space 0 None False"

definition digits_group :: item where
  "digits_group = Item is_decimal 1 None True"

text \<open>
  The list \<open>patterns\<close>: ten patterns \<open>al-tab'a \s+ ordinal\<close> without a group, then
  \<open>ta\s*(\d+)\<close>, \<open>al-tab'a\s*(\d+)\<close>, \<open>tab'a\s*(\d+)\<close> and \<open>(\d+)\s*tab'a\<close>.
\<close>

definition edition_number_patterns :: "item list list" where
  "edition_number_patterns =
     map (\<lambda>(word, number). lits al_taba @ [Item is_space 1 None False] @ lits word)
       word_to_number @
     [[lit ta, spaces0, digits_group],
      lits al_taba @ [spaces0, digits_group],
      lits taba @ [spaces0, digits_group],
      [digits_group, spaces0] @ lits taba]"

text \<open>
  \<^verbatim>\<open>
  def extract_edition_number(edition_text: str) -> Optional[int]:
      if not edition_text:
          return None
      edition_text = edition_text.strip()
      ...
      for word, number in word_to_number.items():
          if word in edition_text:
              return number
      for pattern in patterns:
          match = re.search(pattern, edition_text)
          if match and match.groups():
              try:
                  return int(match.group(1))
              except (ValueError, IndexError):
                  continue
      numbers = re.findall(r'\d+', edition_text)
      if numbers:
          try:
              return int(numbers[0])
          except ValueError:
              pass
      return None
  \<close>
  \<open>match.groups()\<close> is empty, hence false, for a pattern without a group.
\<close>

fun word_loop :: "(ustring \<times> int) list \<Rightarrow> ustring \<Rightarrow> int option" where
  "word_loop [] edition_text = None"
| "word_loop ((word, number) # rest) edition_text =
     (if contains edition_text word then Some number else word_loop rest edition_text)"

fun pattern_loop :: "item list list \<Rightarrow> ustring \<Rightarrow> int option" where
  "pattern_loop [] edition_text = None"
| "pattern_loop (pattern # rest) edition_text =
     (case re_search pattern edition_text of
        None \<Rightarrow> pattern_loop rest edition_text
      | Some (start, len, captured) \<Rightarrow>
          if list_ex grp pattern then
            (case py_int captured of
               Some number \<Rightarrow> Some number
             | None \<Rightarrow> pattern_loop rest edition_text)
          else pattern_loop rest edition_text)"


text \<open>
  The first integer of a string, read off the string itself: the decimal value of the
  first maximal run of decimal digits.
\<close>

definition first_integer :: "ustring \<Rightarrow> int option" where
  "first_integer s =
     (let rest = dropWhile (\<lambda>c. \<not> is_decimal c) s
      in if rest = [] then None else Some (int (digits_value (takeWhile is_decimal rest))))"

subsection \<open>Edition and years from the landing page\<close>
















section \<open>Example inputs\<close>









section \<open>Properties of the string primitives\<close>

lemma nd_block_ascii: "0x30 \<le> c \<Longrightarrow> c \<le> 0x39 \<Longrightarrow> nd_block c = Some 0x30"
  by (simp add: nd_block_def nd_starts_def)

lemma is_decimal_ascii: "0x30 \<le> c \<Longrightarrow> c \<le> 0x39 \<Longrightarrow> is_decimal c"
  by (simp add: is_decimal_def nd_block_ascii)

lemma digit_val_ascii: "0x30 \<le> c \<Longrightarrow> c \<le> 0x39 \<Longrightarrow> digit_val c = c - 0x30"
  by (simp add: digit_val_def nd_block_ascii)

lemma dropWhile_id: "xs = [] \<or> \<not> P (hd xs) \<Longrightarrow> dropWhile P xs = xs"
  by (cases xs) auto

lemma strip_id:
  assumes "s = [] \<or> (\<not> P (hd s) \<and> \<not> P (last s))"
  shows "rev (dropWhile P (rev (dropWhile P s))) = s"
proof (cases "s = []")
  case True
  then show ?thesis by simp
next
  case False
  with assms have h: "\<not> P (hd s)" and l: "\<not> P (last s)" by auto
  have "dropWhile P s = s" using h by (simp add: dropWhile_id)
  moreover have "dropWhile P (rev s) = rev s"
    using l False by (intro dropWhile_id) (simp add: hd_rev)
  ultimately show ?thesis by simp
qed

lemma py_strip_id:
  "s = [] \<or> (\<not> is_space (hd s) \<and> \<not> is_space (last s)) \<Longrightarrow> py_strip s = s"
  unfolding py_strip_def by (rule strip_id)

lemma int_strip_id:
  "s = [] \<or> (\<not> is_int_space (hd s) \<and> \<not> is_int_space (last s)) \<Longrightarrow> int_strip s = s"
  unfolding int_strip_def by (rule strip_id)

lemma dropWhile_keeps: "c \<in> set xs \<Longrightarrow> \<not> P c \<Longrightarrow> c \<in> set (dropWhile P xs)"
  by (induction xs) auto

lemma strip_keeps:
  assumes "c \<in> set s" "\<not> P c"
  shows "c \<in> set (rev (dropWhile P (rev (dropWhile P s))))"
proof -
  have "c \<in> set (rev (dropWhile P s))"
    using assms by (simp add: dropWhile_keeps)
  then have "c \<in> set (dropWhile P (rev (dropWhile P s)))"
    using assms(2) by (rule dropWhile_keeps)
  then show ?thesis by simp
qed

lemma py_strip_keeps: "c \<in> set s \<Longrightarrow> \<not> is_space c \<Longrightarrow> c \<in> set (py_strip s)"
  unfolding py_strip_def by (rule strip_keeps)

lemma int_strip_keeps: "c \<in> set s \<Longrightarrow> \<not> is_int_space c \<Longrightarrow> c \<in> set (int_strip s)"
  unfolding int_strip_def by (rule strip_keeps)

lemma no_double_underscore_free:
  "underscore \<notin> set s \<Longrightarrow> no_double_underscore s"
  by (induction s rule: no_double_underscore.induct) auto

lemma digits_value_snoc: "digits_value (ds @ [c]) = 10 * digits_value ds + digit_val c"
  by (simp add: digits_value_def)

lemma is_decimal_iff: "is_decimal c \<longleftrightarrow> (\<exists>s \<in> set nd_starts. s \<le> c \<and> c < s + 10)"
  by (auto simp: is_decimal_def nd_block_def find_None_iff)

lemma is_decimal_plain:
  assumes "is_decimal c"
  shows "\<not> is_space c" "c \<noteq> underscore" "c \<noteq> 0x2D" "c \<noteq> 0x2B"
proof -
  from assms obtain s where s: "s \<in> set nd_starts" "s \<le> c" "c < s + 10"
    by (auto simp: is_decimal_iff)
  from s(1) have "s = 0x30 \<or> 0x660 \<le> s \<and> s \<le> 0xFF10 \<or> 0x104A0 \<le> s"
    by (auto simp: nd_starts_def)
  moreover have "s \<noteq> 0x1680 - k" if "k < 10" for k
    using s(1) that by (auto simp: nd_starts_def)
  moreover have "\<not> (0x2000 - 9 \<le> s \<and> s \<le> 0x202F)" "\<not> (0x3000 - 9 \<le> s \<and> s \<le> 0x3000)"
    "\<not> (0x205F - 9 \<le> s \<and> s \<le> 0x205F)"
    using s(1) by (auto simp: nd_starts_def)
  ultimately show "\<not> is_space c" "c \<noteq> underscore" "c \<noteq> 0x2D" "c \<noteq> 0x2B"
    using s(2,3) unfolding is_space_def underscore_def by presburger+
qed

lemma is_decimal_not_int_space: "is_decimal c \<Longrightarrow> \<not> is_int_space c"
  by (simp add: is_int_space_def is_decimal_plain)

text \<open>
  A run of decimal digits is a literal of \<open>int()\<close> as long as it has no more than
  4300 digits; a longer run is refused.
\<close>

lemma filter_no_underscore:
  "list_all is_decimal ds \<Longrightarrow> filter (\<lambda>c. c \<noteq> underscore) ds = ds"
  using is_decimal_plain(2) by (induction ds) auto

lemma int_body_decimal:
  assumes "ds \<noteq> []" "list_all is_decimal ds" "length ds \<le> 4300"
  shows "int_body ds = Some (digits_value ds)"
proof -
  have nu: "underscore \<notin> set ds"
    using assms(2) is_decimal_plain(2) by (auto simp: list_all_iff)
  have "hd ds \<in> set ds" "last ds \<in> set ds" using assms(1) by simp_all
  with nu have "hd ds \<noteq> underscore" "last ds \<noteq> underscore" by metis+
  moreover have "list_all (\<lambda>c. c = underscore \<or> is_decimal c) ds"
    using assms(2) by (auto simp: list_all_iff)
  ultimately show ?thesis
    using assms(1,3) nu
    by (simp add: int_body_def no_double_underscore_free filter_no_underscore[OF assms(2)]
        int_max_str_digits_def)
qed

lemma int_body_too_long:
  assumes "list_all is_decimal ds" "4300 < length ds"
  shows "int_body ds = None"
  using assms(2) by (simp add: int_body_def filter_no_underscore[OF assms(1)] int_max_str_digits_def)

lemma int_strip_decimal:
  assumes "list_all is_decimal ds"
  shows "int_strip ds = ds"
proof (cases "ds = []")
  case True
  then show ?thesis by (simp add: int_strip_def)
next
  case False
  then have "hd ds \<in> set ds" "last ds \<in> set ds" by simp_all
  then have "is_decimal (hd ds)" "is_decimal (last ds)"
    using assms by (auto simp: list_all_iff)
  then show ?thesis by (intro int_strip_id) (simp add: is_decimal_not_int_space)
qed

lemma py_int_digits:
  assumes "ds \<noteq> []" "list_all is_decimal ds"
  shows "py_int ds = map_option int (int_body ds)"
proof -
  obtain c cs where ds: "ds = c # cs" using assms(1) by (cases ds) auto
  have "c \<noteq> 0x2D" "c \<noteq> 0x2B"
    using assms(2) ds is_decimal_plain(3,4)[of c] by auto
  then show ?thesis
    using int_strip_decimal[OF assms(2)] ds by (simp add: py_int_def)
qed

lemma py_int_decimal:
  assumes "ds \<noteq> []" "list_all is_decimal ds" "length ds \<le> 4300"
  shows "py_int ds = Some (int (digits_value ds))"
  by (simp add: py_int_digits[OF assms(1,2)] int_body_decimal[OF assms])

lemma py_int_too_long:
  assumes "list_all is_decimal ds" "4300 < length ds"
  shows "py_int ds = None"
proof -
  from assms(2) have "ds \<noteq> []" by auto
  then show ?thesis
    by (simp add: py_int_digits[OF _ assms(1)] int_body_too_long[OF assms])
qed

lemma ascii_digit_decimal: "list_all ascii_digit ds \<Longrightarrow> list_all is_decimal ds"
  by (auto simp: list_all_iff ascii_digit_def is_decimal_ascii)

lemma ascii_digit_not_space: "ascii_digit c \<Longrightarrow> \<not> is_space c"
  by (auto simp: ascii_digit_def is_space_def)

lemma py_int_ascii:
  assumes "ds \<noteq> []" "list_all ascii_digit ds" "length ds \<le> 4300"
  shows "py_int ds = Some (int (digits_value ds))"
  using assms(1) ascii_digit_decimal[OF assms(2)] assms(3) by (rule py_int_decimal)

lemma dec_digits_ascii: "list_all ascii_digit (dec_digits n)"
proof (induction n rule: dec_digits.induct)
  case (1 n)
  show ?case
  proof (cases "n < 10")
    case True
    then show ?thesis by (subst dec_digits.simps) (simp add: ascii_digit_def)
  next
    case False
    have "n mod 10 < 10" by simp
    then have "ascii_digit (0x30 + n mod 10)" unfolding ascii_digit_def by linarith
    with False 1 show ?thesis by (subst dec_digits.simps) simp
  qed
qed

lemma dec_digits_nonempty: "dec_digits n \<noteq> []"
  by (subst dec_digits.simps) simp

lemma dec_digits_value: "digits_value (dec_digits n) = n"
proof (induction n rule: dec_digits.induct)
  case (1 n)
  show ?case
  proof (cases "n < 10")
    case True
    then show ?thesis
      by (subst dec_digits.simps) (simp add: digits_value_def digit_val_ascii)
  next
    case False
    have "n mod 10 < 10" by simp
    then have "digit_val (0x30 + n mod 10) = n mod 10"
      by (subst digit_val_ascii) auto
    with False 1 show ?thesis
      by (subst dec_digits.simps) (simp add: digits_value_snoc)
  qed
qed

lemma dec_digits_no_leading_zero: "hd (dec_digits n) = 0x30 \<Longrightarrow> n = 0"
proof (induction n rule: dec_digits.induct)
  case (1 n)
  show ?case
  proof (cases "n < 10")
    case True
    with 1(2) show ?thesis by (subst (asm) dec_digits.simps) simp
  next
    case False
    with 1(2) have "hd (dec_digits (n div 10)) = 0x30"
      by (subst (asm) dec_digits.simps) (simp add: dec_digits_nonempty)
    with 1(1) False have "n div 10 = 0" by simp
    with False show ?thesis by simp
  qed
qed

lemma py_int_rejects:
  assumes "c \<in> set s" "\<not> is_decimal c" "c \<noteq> underscore" "\<not> is_int_space c"
    "c \<noteq> 0x2D" "c \<noteq> 0x2B"
  shows "py_int s = None"
proof -
  have bad: "\<And>t. c \<in> set t \<Longrightarrow> int_body t = None"
    using assms(2,3) by (auto simp: int_body_def list_all_iff)
  have m: "c \<in> set (int_strip s)" using assms(1,4) by (rule int_strip_keeps)
  show ?thesis
  proof (cases "int_strip s")
    case Nil
    then show ?thesis by (simp add: py_int_def)
  next
    case (Cons a as)
    with m have "c = a \<or> c \<in> set as" by simp
    then show ?thesis
      using Cons assms(5,6) bad[of as] bad[of "a # as"] by (auto simp: py_int_def)
  qed
qed


section \<open>Properties: book identifiers\<close>

lemmas string_eval =
  ascii_def py_strip_def is_space_def startswith_def underscore_def ascii_digit_def

lemmas int_eval =
  py_int_def int_strip_def is_int_space_def int_body_def int_max_str_digits_def
  is_decimal_def nd_block_def nd_starts_def digits_value_def
  digit_val_def py_str_def dec_digits.simps

lemma normalize_book_id_plain:
  "\<not> startswith (py_strip s) (ascii ''BK'') \<Longrightarrow> normalize_book_id s = Inr (py_strip s)"
  by (simp add: normalize_book_id_def)

lemma normalize_book_id_prefixed:
  assumes "ds \<noteq> []" "list_all ascii_digit ds"
  shows "normalize_book_id (ascii ''BK'' @ ds) =
           (case py_int ds of None \<Rightarrow> Inl ValueError | Some i \<Rightarrow> Inr (py_str i))"
proof -
  have l: "last (ascii ''BK'' @ ds) = last ds" using assms(1) by simp
  have "last ds \<in> set ds" using assms(1) by simp
  then have "ascii_digit (last ds)" using assms(2) by (auto simp: list_all_iff)
  then have "\<not> is_space (last (ascii ''BK'' @ ds))"
    using l by (simp add: ascii_digit_not_space)
  moreover have "\<not> is_space (hd (ascii ''BK'' @ ds))"
    by (simp add: ascii_def is_space_def)
  ultimately have "py_strip (ascii ''BK'' @ ds) = ascii ''BK'' @ ds"
    by (intro py_strip_id) simp
  moreover have "startswith (ascii ''BK'' @ ds) (ascii ''BK'')"
    by (simp add: startswith_def ascii_def)
  moreover have "drop 2 (ascii ''BK'' @ ds) = ds" by (simp add: ascii_def)
  ultimately show ?thesis
    by (simp add: normalize_book_id_def)
qed

lemma normalize_book_id_digits:
  assumes "ds \<noteq> []" "list_all ascii_digit ds" "length ds \<le> 4300"
  shows "normalize_book_id (ascii ''BK'' @ ds) = Inr (dec_digits (digits_value ds))"
  by (simp add: normalize_book_id_prefixed[OF assms(1,2)] py_int_ascii[OF assms] py_str_def)

lemma normalize_book_id_too_long:
  assumes "list_all ascii_digit ds" "4300 < length ds"
  shows "normalize_book_id (ascii ''BK'' @ ds) = Inl ValueError"
proof -
  from assms(2) have "ds \<noteq> []" by auto
  then show ?thesis
    by (simp add: normalize_book_id_prefixed[OF _ assms(1)]
        py_int_too_long[OF ascii_digit_decimal[OF assms(1)] assms(2)])
qed

lemma normalize_book_id_rejects:
  assumes "startswith (py_strip s) (ascii ''BK'')"
    and "c \<in> set (drop 2 (py_strip s))"
    and "\<not> is_decimal c" "c \<noteq> underscore" "\<not> is_space c" "c \<noteq> 0x2D" "c \<noteq> 0x2B"
  shows "normalize_book_id s = Inl ValueError"
proof -
  from assms(5) have "\<not> is_int_space c" by (simp add: is_int_space_def)
  from py_int_rejects[OF assms(2,3,4) this assms(6,7)] assms(1)
  show ?thesis by (simp add: normalize_book_id_def)
qed

text \<open>
  C3 (as the code has it). \<open>"BK000043"\<close> and \<open>"43"\<close> both normalise to \<open>"43"\<close>.
  An identifier without the prefix \<open>BK\<close> is returned as it is, only stripped of
  surrounding white space: leading zeroes stay (\<open>"00043"\<close> gives \<open>"00043"\<close>) and the
  empty string is returned, not rejected. After the prefix, a non-empty run of at most
  4300 ASCII digits is replaced by the decimal numeral of the same value without leading
  zeroes. A prefixed identifier fails (with \<open>ValueError\<close>) when the remainder is a
  run of more than 4300 digits (the limit of \<open>int()\<close>), when it is empty, or when it
  holds a character that is no digit, underscore, sign or white space.
\<close>

theorem normalize_book_id_cases:
  "normalize_book_id (ascii ''BK000043'') = Inr (ascii ''43'') \<and>
   normalize_book_id (ascii ''43'') = Inr (ascii ''43'') \<and>
   normalize_book_id [] = Inr [] \<and>
   (\<not> startswith (py_strip s) (ascii ''BK'') \<longrightarrow> normalize_book_id s = Inr (py_strip s)) \<and>
   (ds \<noteq> [] \<and> list_all ascii_digit ds \<and> length ds \<le> 4300 \<longrightarrow>
      (\<exists>r. normalize_book_id (ascii ''BK'' @ ds) = Inr r \<and> r \<noteq> [] \<and> list_all ascii_digit r \<and>
           (hd r = 0x30 \<longrightarrow> r = [0x30]) \<and> digits_value r = digits_value ds)) \<and>
   (list_all ascii_digit ds \<and> 4300 < length ds \<longrightarrow>
      normalize_book_id (ascii ''BK'' @ ds) = Inl ValueError) \<and>
   normalize_book_id (ascii ''BK'') = Inl ValueError \<and>
   (startswith (py_strip s) (ascii ''BK'') \<and>
    (\<exists>c \<in> set (drop 2 (py_strip s)).
        \<not> is_decimal c \<and> c \<noteq> underscore \<and> \<not> is_space c \<and> c \<noteq> 0x2D \<and> c \<noteq> 0x2B)
      \<longrightarrow> normalize_book_id s = Inl ValueError)"
proof -
  have a: "normalize_book_id (ascii ''BK000043'') = Inr (ascii ''43'')"
    by (simp add: normalize_book_id_def string_eval int_eval)
  have b: "normalize_book_id (ascii ''43'') = Inr (ascii ''43'')"
    by (simp add: normalize_book_id_def string_eval)
  have c: "normalize_book_id [] = Inr []"
    by (simp add: normalize_book_id_def string_eval)
  have d: "normalize_book_id (ascii ''BK'') = Inl ValueError"
    by (simp add: normalize_book_id_def string_eval py_int_def int_strip_def)
  have e: "\<exists>r. normalize_book_id (ascii ''BK'' @ ds) = Inr r \<and> r \<noteq> [] \<and>
             list_all ascii_digit r \<and> (hd r = 0x30 \<longrightarrow> r = [0x30]) \<and>
             digits_value r = digits_value ds"
    if h: "ds \<noteq> []" "list_all ascii_digit ds" "length ds \<le> 4300"
  proof -
    let ?r = "dec_digits (digits_value ds)"
    have "hd ?r = 0x30 \<longrightarrow> ?r = [0x30]"
    proof
      assume "hd ?r = 0x30"
      then have "digits_value ds = 0" by (rule dec_digits_no_leading_zero)
      then show "?r = [0x30]" by (simp add: dec_digits.simps)
    qed
    then show ?thesis
      using normalize_book_id_digits[OF h] dec_digits_nonempty dec_digits_ascii
        dec_digits_value by blast
  qed
  show ?thesis
    using a b c d e normalize_book_id_plain normalize_book_id_rejects
      normalize_book_id_too_long by blast
qed

theorem normalize_book_id_cases_witness:
  "normalize_book_id (ascii ''00043'') = Inr (ascii ''00043'') \<and>
   normalize_book_id (ascii ''BK4x'') = Inl ValueError \<and>
   (\<exists>r. normalize_book_id (ascii ''BK007'') = Inr r \<and> digits_value r = 7 \<and>
        (hd r = 0x30 \<longrightarrow> r = [0x30])) \<and>
   normalize_book_id (ascii ''BK'' @ replicate 4301 0x37) = Inl ValueError"
proof -
  have long: "list_all ascii_digit (replicate 4301 0x37) \<and> 4300 < length (replicate 4301 (0x37::nat))"
    by (simp add: list_all_iff ascii_digit_def)
  with normalize_book_id_cases[of "[]" "replicate 4301 0x37"]
  have 4: "normalize_book_id (ascii ''BK'' @ replicate 4301 0x37) = Inl ValueError" by blast
  have p: "\<not> startswith (py_strip (ascii ''00043'')) (ascii ''BK'')"
    by (simp add: string_eval)
  have "py_strip (ascii ''00043'') = ascii ''00043''" by (simp add: string_eval)
  with p normalize_book_id_cases[of "ascii ''00043''" "[]"]
  have 1: "normalize_book_id (ascii ''00043'') = Inr (ascii ''00043'')" by simp
  have q: "startswith (py_strip (ascii ''BK4x'')) (ascii ''BK'')" by (simp add: string_eval)
  have "\<exists>c \<in> set (drop 2 (py_strip (ascii ''BK4x''))).
          \<not> is_decimal c \<and> c \<noteq> underscore \<and> \<not> is_space c \<and> c \<noteq> 0x2D \<and> c \<noteq> 0x2B"
    by (simp add: string_eval is_decimal_def nd_block_def nd_starts_def)
  with q normalize_book_id_cases[of "ascii ''BK4x''" "[]"]
  have 2: "normalize_book_id (ascii ''BK4x'') = Inl ValueError" by blast
  have r: "ascii ''007'' \<noteq> [] \<and> list_all ascii_digit (ascii ''007'') \<and>
      length (ascii ''007'') \<le> 4300"
    by (simp add: string_eval)
  have v: "digits_value (ascii ''007'') = 7"
    by (simp add: ascii_def digits_value_def digit_val_def nd_block_def nd_starts_def)
  have "ascii ''BK'' @ ascii ''007'' = ascii ''BK007''" by (simp add: ascii_def)
  with r v normalize_book_id_cases[of "[]" "ascii ''007''"]
  have 3: "\<exists>r. normalize_book_id (ascii ''BK007'') = Inr r \<and> digits_value r = 7 \<and>
        (hd r = 0x30 \<longrightarrow> r = [0x30])" by auto
  from 1 2 3 4 show ?thesis by blast
qed

text \<open>
  The specification's boundary case B1 asks that \<open>"00043"\<close> normalise to \<open>"43"\<close>;
  the function returns it unchanged.
\<close>

theorem normalize_book_id_leading_zeroes_counterexample:
  "normalize_book_id (ascii ''00043'') \<noteq> Inr (ascii ''43'')"
  by (simp add: normalize_book_id_def string_eval)

section \<open>Properties of the regular expression model\<close>

lemma first_some_map_Some:
  "first_some (map f xs) = Some r \<Longrightarrow> \<exists>x \<in> set xs. f x = Some r"
proof (induction xs)
  case Nil
  then show ?case by simp
next
  case (Cons x xs)
  then show ?case by (cases "f x") auto
qed

lemma first_some_map_None:
  "first_some (map f xs) = None \<longleftrightarrow> (\<forall>x \<in> set xs. f x = None)"
proof (induction xs)
  case Nil
  then show ?case by simp
next
  case (Cons x xs)
  then show ?case by (cases "f x") auto
qed

lemma first_some_map_exists:
  "x \<in> set xs \<Longrightarrow> f x \<noteq> None \<Longrightarrow> first_some (map f xs) \<noteq> None"
proof (induction xs)
  case Nil
  then show ?case by simp
next
  case (Cons a xs)
  then show ?case by (cases "f a") auto
qed

lemma re_match_step:
  assumes "re_match (Item c l h g # rest) s = Some (n, cap)"
  shows "\<exists>k m cap'. l \<le> k \<and> k \<le> length (takeWhile c s) \<and>
           (case h of None \<Rightarrow> True | Some b \<Rightarrow> k \<le> b) \<and>
           re_match rest (drop k s) = Some (m, cap') \<and> n = k + m \<and>
           cap = (if g then take k s else []) @ cap'"
proof -
  define top where "top = (case h of None \<Rightarrow> length (takeWhile c s)
                            | Some b \<Rightarrow> min b (length (takeWhile c s)))"
  let ?f = "\<lambda>k. map_option (\<lambda>(len, cap). (k + len, (if g then take k s else []) @ cap))
                  (re_match rest (drop k s))"
  from assms have "first_some (map ?f (rev [l..<Suc top])) = Some (n, cap)"
    by (simp add: top_def Let_def)
  then have "\<exists>k \<in> set (rev [l..<Suc top]). ?f k = Some (n, cap)"
    by (rule first_some_map_Some)
  then obtain k where k: "k \<in> set (rev [l..<Suc top])" "?f k = Some (n, cap)" ..
  from k(2) obtain m cap' where m: "re_match rest (drop k s) = Some (m, cap')"
    "n = k + m" "cap = (if g then take k s else []) @ cap'"
    by (cases "re_match rest (drop k s)") auto
  from k(1) have "l \<le> k" "k \<le> top" by auto
  then have "k \<le> length (takeWhile c s)" "(case h of None \<Rightarrow> True | Some b \<Rightarrow> k \<le> b)"
    by (auto simp: top_def split: option.splits)
  with \<open>l \<le> k\<close> m show ?thesis by (intro exI[of _ k] exI[of _ m] exI[of _ cap']) simp
qed

lemma take_takeWhile_all:
  "k \<le> length (takeWhile c s) \<Longrightarrow> list_all c (take k s)"
proof (induction s arbitrary: k)
  case Nil
  then show ?case by simp
next
  case (Cons a s)
  then show ?case by (cases k) (auto split: if_splits)
qed

lemma re_match_sound:
  "re_match p s = Some (n, cap) \<Longrightarrow>
   \<exists>bs. fits p bs \<and> concat bs = take n s \<and> n \<le> length s \<and> cap = group1 p bs"
proof (induction p arbitrary: s n cap)
  case Nil
  then have "fits [] [] \<and> concat [] = take n s \<and> n \<le> length s \<and> cap = group1 [] []"
    by simp
  then show ?case by blast
next
  case (Cons i p)
  obtain c l h g where i: "i = Item c l h g" by (cases i)
  from Cons.prems i obtain k m cap' where
    k: "l \<le> k" "k \<le> length (takeWhile c s)" "(case h of None \<Rightarrow> True | Some b \<Rightarrow> k \<le> b)"
    and m: "re_match p (drop k s) = Some (m, cap')" "n = k + m"
      "cap = (if g then take k s else []) @ cap'"
    using re_match_step by blast
  from Cons.IH[OF m(1)] obtain bs where
    bs: "fits p bs" "concat bs = take m (drop k s)" "m \<le> length (drop k s)"
      "cap' = group1 p bs" by blast
  have ks: "k \<le> length s"
    using k(2) length_takeWhile_le[of c s] by linarith
  have "fits (i # p) (take k s # bs)"
    using i k bs(1) ks by (auto simp: take_takeWhile_all min_absorb2 split: option.splits)
  moreover have "concat (take k s # bs) = take n s"
    using bs(2) m(2) by (simp add: take_add)
  moreover have "n \<le> length s" using bs(3) m(2) ks by simp
  moreover have "cap = group1 (i # p) (take k s # bs)"
    using i m(3) bs(4) by simp
  ultimately show ?case by blast
qed

lemma prefix_all_takeWhile:
  "list_all c b \<Longrightarrow> prefix b s \<Longrightarrow> length b \<le> length (takeWhile c s)"
proof (induction b arbitrary: s)
  case Nil
  then show ?case by simp
next
  case (Cons a b)
  then show ?case by (cases s) auto
qed

lemma re_match_complete:
  "fits p bs \<Longrightarrow> prefix (concat bs) s \<Longrightarrow> re_match p s \<noteq> None"
proof (induction p arbitrary: bs s)
  case Nil
  then show ?case by simp
next
  case (Cons i p)
  obtain c l h g where i: "i = Item c l h g" by (cases i)
  from Cons.prems(1) i obtain b bs' where bs: "bs = b # bs'"
    by (cases bs) auto
  with Cons.prems(1) i have f: "list_all c b" "l \<le> length b"
    "(case h of None \<Rightarrow> True | Some m \<Rightarrow> length b \<le> m)" "fits p bs'" by auto
  from Cons.prems(2) bs have pb: "prefix b s" and pr: "prefix (concat bs') (drop (length b) s)"
    by (auto simp: prefix_def)
  have le: "length b \<le> length (takeWhile c s)"
    using f(1) pb by (rule prefix_all_takeWhile)
  define top where "top = (case h of None \<Rightarrow> length (takeWhile c s)
                            | Some b \<Rightarrow> min b (length (takeWhile c s)))"
  have mem: "length b \<in> set (rev [l..<Suc top])"
    using f(2,3) le by (auto simp: top_def split: option.splits)
  let ?f = "\<lambda>k. map_option (\<lambda>(len, cap). (k + len, (if g then take k s else []) @ cap))
                  (re_match p (drop k s))"
  have "?f (length b) \<noteq> None"
    using Cons.IH[OF f(4) pr] by simp
  with mem have "first_some (map ?f (rev [l..<Suc top])) \<noteq> None"
    by (rule first_some_map_exists)
  then show ?case by (simp add: i top_def Let_def)
qed

lemma re_search_None:
  "re_search p s = None \<longleftrightarrow> (\<forall>i \<le> length s. re_match p (drop i s) = None)"
proof (induction s)
  case Nil
  then show ?case by simp
next
  case (Cons c cs)
  have "(\<forall>i \<le> length (c # cs). re_match p (drop i (c # cs)) = None) \<longleftrightarrow>
        re_match p (c # cs) = None \<and> (\<forall>i \<le> length cs. re_match p (drop i cs) = None)"
    (is "?L \<longleftrightarrow> ?R")
  proof
    assume l: ?L
    have "re_match p (drop 0 (c # cs)) = None" using l by blast
    moreover have "re_match p (drop i cs) = None" if "i \<le> length cs" for i
      using l[rule_format, of "Suc i"] that by simp
    ultimately show ?R by simp
  next
    assume r: ?R
    show ?L
    proof (intro allI impI)
      fix i assume "i \<le> length (c # cs)"
      then show "re_match p (drop i (c # cs)) = None"
        using r by (cases i) auto
    qed
  qed
  with Cons show ?case by (auto split: option.splits)
qed

lemma re_search_Some:
  "re_search p s = Some (i, m) \<Longrightarrow>
   i \<le> length s \<and> re_match p (drop i s) = Some m \<and> (\<forall>j < i. re_match p (drop j s) = None)"
proof (induction s arbitrary: i m)
  case Nil
  then show ?case by auto
next
  case (Cons c cs)
  show ?case
  proof (cases "re_match p (c # cs)")
    case (Some a)
    with Cons.prems show ?thesis by auto
  next
    case None
    with Cons.prems obtain i' where i': "re_search p cs = Some (i', m)" "i = Suc i'"
      by (cases "re_search p cs") auto
    from Cons.IH[OF i'(1)] have ih: "i' \<le> length cs" "re_match p (drop i' cs) = Some m"
      "\<forall>j < i'. re_match p (drop j cs) = None" by auto
    have "re_match p (drop j (c # cs)) = None" if "j < i" for j
      using that None ih(3) i'(2) by (cases j) auto
    with ih i'(2) show ?thesis by simp
  qed
qed

lemma give_back_first_some: "give_back f l n = first_some (map f (rev [l..<Suc n]))"
proof (induction n)
  case 0
  show ?case by (subst give_back.simps) (auto split: option.splits)
next
  case (Suc n)
  show ?case
  proof (cases "Suc n < l")
    case True
    then show ?thesis by (subst give_back.simps) simp
  next
    case False
    then have "rev [l..<Suc (Suc n)] = Suc n # rev [l..<Suc n]" by simp
    with False Suc show ?thesis
      by (subst give_back.simps) (auto split: option.splits)
  qed
qed

lemma re_match_lazy:
  "re_match (Item c l h g # rest) s =
     give_back (\<lambda>n. case re_match rest (drop n s) of
                       None \<Rightarrow> None
                     | Some (len, cap) \<Rightarrow> Some (n + len, (if g then take n s else []) @ cap))
       l (case h of None \<Rightarrow> length (takeWhile c s)
                  | Some m \<Rightarrow> min m (length (takeWhile c s)))"
proof -
  have "(\<lambda>n. map_option (\<lambda>(len, cap). (n + len, (if g then take n s else []) @ cap))
               (re_match rest (drop n s))) =
        (\<lambda>n. case re_match rest (drop n s) of
                None \<Rightarrow> None
              | Some (len, cap) \<Rightarrow> Some (n + len, (if g then take n s else []) @ cap))"
    by (auto simp: fun_eq_iff split: option.splits)
  then show ?thesis
    unfolding re_match.simps Let_def give_back_first_some by (rule arg_cong2[where f="\<lambda>f x. first_some (map f x)", OF _ refl])
qed

declare re_match.simps(2) [simp del]

lemmas regex_eval =
  re_match_lazy give_back.simps
  is_sad_or_seen_def is_colon_def is_page_digit_def ascii_digit_def is_space_def

lemma give_back_hit: "l \<le> n \<Longrightarrow> f n = Some r \<Longrightarrow> give_back f l n = Some r"
  by (subst give_back.simps) simp

lemma give_back_short: "n < l \<Longrightarrow> give_back f l n = None"
  by (subst give_back.simps) simp

lemma take_length_takeWhile: "take (length (takeWhile c s)) s = takeWhile c s"
  by (induction s) auto

lemma re_match_single:
  "re_match [Item c (Suc 0) None g] s =
     (if s \<noteq> [] \<and> c (hd s)
      then Some (length (takeWhile c s), if g then takeWhile c s else [])
      else None)"
proof (cases "s \<noteq> [] \<and> c (hd s)")
  case True
  then have "Suc 0 \<le> length (takeWhile c s)" by (cases s) auto
  then have "re_match [Item c (Suc 0) None g] s
      = Some (length (takeWhile c s), if g then takeWhile c s else [])"
    by (simp add: re_match_lazy give_back_hit take_length_takeWhile)
  with True show ?thesis by simp
next
  case False
  then have "length (takeWhile c s) < Suc 0" by (cases s) auto
  then have "re_match [Item c (Suc 0) None g] s = None"
    by (simp add: re_match_lazy give_back_short)
  with False show ?thesis by simp
qed

section \<open>Properties: text cleaning\<close>

text \<open>
  C10 (the code at the failing input). For the text \<open>a\<close>, space, U+200C, space,
  \<open>b\<close> the white space is collapsed first and the zero-width character removed
  afterwards, so the two spaces around it end up side by side: the result has two
  consecutive spaces, and cleaning the result again changes it.
\<close>

theorem clean_text_not_idempotent:
  "clean_text [0x61, 0x20, 0x200C, 0x20, 0x62] = [0x61, 0x20, 0x20, 0x62] \<and>
   clean_text (clean_text [0x61, 0x20, 0x200C, 0x20, 0x62]) = [0x61, 0x20, 0x62] \<and>
   clean_text (clean_text [0x61, 0x20, 0x200C, 0x20, 0x62])
     \<noteq> clean_text [0x61, 0x20, 0x200C, 0x20, 0x62]"
proof -
  have a: "clean_text [0x61, 0x20, 0x200C, 0x20, 0x62] = [0x61, 0x20, 0x20, 0x62]"
    by (simp add: clean_text_def py_strip_def is_space_def is_crlftab_def replace_char_def)
  have b: "clean_text [0x61, 0x20, 0x20, 0x62] = [0x61, 0x20, 0x62]"
    by (simp add: clean_text_def py_strip_def is_space_def is_crlftab_def replace_char_def)
  show ?thesis unfolding a b by simp
qed

section \<open>Properties: printed page numbers\<close>

lemma replace_char_single:
  "replace_char a [w] t = map (\<lambda>c. if c = a then w else c) t"
  by (induction t) (auto simp: replace_char_def)

lemma convert_arabic_hindi_digits_map:
  "convert_arabic_hindi_digits t = map western_digit t"
proof -
  have "convert_arabic_hindi_digits [c] = [western_digit c]" for c
    by (simp add: convert_arabic_hindi_digits_def arabic_hindi_map_def replace_char_single
        western_digit_def) presburger
  moreover have "convert_arabic_hindi_digits (xs @ ys) =
      convert_arabic_hindi_digits xs @ convert_arabic_hindi_digits ys" for xs ys
    by (simp add: convert_arabic_hindi_digits_def arabic_hindi_map_def replace_char_single)
  ultimately show ?thesis
  proof (induction t)
    case Nil
    then show ?case
      by (simp add: convert_arabic_hindi_digits_def arabic_hindi_map_def replace_char_single)
  next
    case (Cons c t)
    have "convert_arabic_hindi_digits (c # t) =
          convert_arabic_hindi_digits [c] @ convert_arabic_hindi_digits t"
      using Cons.prems(2)[of "[c]" t] by simp
    with Cons show ?case by simp
  qed
qed

lemma nd_block_arabic: "0x660 \<le> c \<Longrightarrow> c \<le> 0x669 \<Longrightarrow> nd_block c = Some 0x660"
  by (simp add: nd_block_def nd_starts_def)

lemma western_page_digit:
  assumes "is_page_digit c"
  shows "ascii_digit (western_digit c)" "digit_val (western_digit c) = digit_val c"
proof -
  from assms consider "0x30 \<le> c \<and> c \<le> 0x39" | "0x660 \<le> c \<and> c \<le> 0x669"
    by (auto simp: is_page_digit_def ascii_digit_def)
  then have "ascii_digit (western_digit c) \<and> digit_val (western_digit c) = digit_val c"
  proof cases
    case 1
    then show ?thesis by (simp add: western_digit_def ascii_digit_def)
  next
    case 2
    then have "0x30 \<le> c - 0x630 \<and> c - 0x630 \<le> 0x39" by linarith
    then have "digit_val (c - 0x630) = c - 0x630 - 0x30" "ascii_digit (c - 0x630)"
      by (simp_all add: digit_val_ascii ascii_digit_def)
    moreover have "digit_val c = c - 0x660"
      using 2 by (simp add: digit_val_def nd_block_arabic)
    ultimately show ?thesis using 2 by (simp add: western_digit_def)
  qed
  then show "ascii_digit (western_digit c)" "digit_val (western_digit c) = digit_val c"
    by simp_all
qed

lemma foldl_digits_western:
  "list_all is_page_digit ds \<Longrightarrow>
   foldl (\<lambda>a c. 10 * a + digit_val c) a (map western_digit ds) =
   foldl (\<lambda>a c. 10 * a + digit_val c) a ds"
  by (induction ds arbitrary: a) (simp_all add: western_page_digit)

lemma py_int_page_digits:
  assumes "ds \<noteq> []" "list_all is_page_digit ds"
  shows "length ds \<le> 4300 \<Longrightarrow>
           py_int (convert_arabic_hindi_digits ds) = Some (int (digits_value ds))"
    and "4300 < length ds \<Longrightarrow> py_int (convert_arabic_hindi_digits ds) = None"
proof -
  have a: "list_all ascii_digit (map western_digit ds)"
    using assms(2) by (induction ds) (simp_all add: western_page_digit)
  have n: "map western_digit ds \<noteq> []" using assms(1) by simp
  have v: "digits_value (map western_digit ds) = digits_value ds"
    using assms(2) by (simp add: digits_value_def foldl_digits_western)
  show "py_int (convert_arabic_hindi_digits ds) = Some (int (digits_value ds))"
    if "length ds \<le> 4300"
    using py_int_ascii[OF n a] that v by (simp add: convert_arabic_hindi_digits_map)
  show "py_int (convert_arabic_hindi_digits ds) = None" if "4300 < length ds"
    using py_int_too_long[OF ascii_digit_decimal[OF a]] that
    by (simp add: convert_arabic_hindi_digits_map)
qed

lemma printed_page_fits:
  assumes "fits printed_page_pattern bs"
  shows "group1 printed_page_pattern bs \<noteq> [] \<and>
         list_all is_page_digit (group1 printed_page_pattern bs) \<and> concat bs \<noteq> []"
proof -
  from assms obtain b1 b2 b3 b4 b5 where bs: "bs = [b1, b2, b3, b4, b5]"
    unfolding printed_page_pattern_def
    by (cases bs; simp; rename_tac b1 r1; case_tac r1; simp; rename_tac b2 r2; case_tac r2;
        simp; rename_tac b3 r3; case_tac r3; simp; rename_tac b4 r4; case_tac r4; simp;
        rename_tac b5 r5; case_tac r5; simp)
  with assms have "list_all is_page_digit b5" "1 \<le> length b5"
    by (simp_all add: printed_page_pattern_def)
  then have "b5 \<noteq> []" by auto
  with \<open>list_all is_page_digit b5\<close> bs show ?thesis
    by (simp add: printed_page_pattern_def)
qed

lemma printed_page_match:
  assumes "re_match printed_page_pattern s = Some (n, ds)"
  shows "ds \<noteq> [] \<and> list_all is_page_digit ds"
proof -
  from re_match_sound[OF assms] obtain bs where
    "fits printed_page_pattern bs" "ds = group1 printed_page_pattern bs" by blast
  then show ?thesis using printed_page_fits by simp
qed


lemma extract_printed_page_number_match:
  assumes "re_search printed_page_pattern t = Some (i, n, ds)"
  shows "length ds \<le> 4300 \<Longrightarrow> extract_printed_page_number t = Some (int (digits_value ds))"
    and "ds \<noteq> []" and "list_all is_page_digit ds"
    and "\<forall>j<i. re_match printed_page_pattern (drop j t) = None"
    and "4300 < length ds \<Longrightarrow> extract_printed_page_number t = None"
    and "re_match printed_page_pattern (drop i t) = Some (n, ds)"
proof -
  from re_search_Some[OF assms] show m: "re_match printed_page_pattern (drop i t) = Some (n, ds)"
    and first: "\<forall>j<i. re_match printed_page_pattern (drop j t) = None" by simp_all
  from printed_page_match[OF m] show d: "ds \<noteq> []" "list_all is_page_digit ds" by simp_all
  have t: "t \<noteq> []"
  proof
    assume "t = []"
    with m have "re_match printed_page_pattern [] = Some (n, ds)" by simp
    from re_match_sound[OF this] obtain bs where "fits printed_page_pattern bs" "concat bs = []"
      by auto
    with printed_page_fits show False by blast
  qed
  show "extract_printed_page_number t = Some (int (digits_value ds))" if "length ds \<le> 4300"
    using t assms py_int_page_digits(1)[OF d that]
    by (simp add: extract_printed_page_number_def)
  show "extract_printed_page_number t = None" if "4300 < length ds"
    using t assms py_int_page_digits(2)[OF d that]
    by (simp add: extract_printed_page_number_def)
qed

lemma extract_printed_page_number_None:
  "extract_printed_page_number t = None \<longleftrightarrow>
     re_search printed_page_pattern t = None \<or>
     (\<exists>i n ds. re_search printed_page_pattern t = Some (i, n, ds) \<and> 4300 < length ds)"
proof (cases "re_search printed_page_pattern t")
  case None
  then show ?thesis by (simp add: extract_printed_page_number_def)
next
  case (Some a)
  obtain i n ds where a: "a = (i, n, ds)" by (cases a)
  show ?thesis
  proof (cases "length ds \<le> 4300")
    case True
    with Some a extract_printed_page_number_match(1)[of t i n ds] show ?thesis by simp
  next
    case False
    with Some a extract_printed_page_number_match(5)[of t i n ds] show ?thesis by simp
  qed
qed

text \<open>The title that is U+0635 followed by nothing but page digits.\<close>

lemma give_back_same: "give_back f n n = f n"
proof (cases "f n")
  case None
  have "give_back f n (n - 1) = None" if "n \<noteq> 0"
    using that by (subst give_back.simps) simp
  with None show ?thesis by (subst give_back.simps) simp
next
  case (Some r)
  then show ?thesis by (subst give_back.simps) simp
qed

lemma printed_page_search_plain:
  assumes "ds \<noteq> []" "list_all is_page_digit ds"
  shows "re_search printed_page_pattern (0x635 # ds) = Some (0, Suc (length ds), ds)"
proof -
  obtain d ds' where ds: "ds = d # ds'" using assms(1) by (cases ds) auto
  with assms(2) have d: "is_page_digit d" by simp
  then have nd: "\<not> is_space d" "\<not> is_colon d" "\<not> is_sad_or_seen d"
    by (auto simp: is_page_digit_def ascii_digit_def is_space_def is_colon_def is_sad_or_seen_def)
  have all: "takeWhile is_page_digit ds = ds"
    using assms(2) by (simp add: takeWhile_eq_all_conv list_all_iff)
  have h: "ds \<noteq> [] \<and> is_page_digit (hd ds)" using d ds by simp
  have last: "re_match [Item is_page_digit (Suc 0) None True] ds = Some (length ds, ds)"
    using h by (simp add: re_match_single all)
  have tail: "re_match [Item is_space 0 None False, Item is_colon 0 (Some (Suc 0)) False,
                 Item is_space 0 None False, Item is_page_digit (Suc 0) None True] ds
              = Some (length ds, ds)"
    using nd last by (simp add: re_match_lazy ds give_back_same)
  have "re_match printed_page_pattern (0x635 # ds) = Some (Suc (length ds), ds)"
    using nd tail
    by (simp add: printed_page_pattern_def re_match_lazy[of is_sad_or_seen] is_sad_or_seen_def
        ds give_back_same)
  then show ?thesis by simp
qed

lemma re_search_None_fits:
  "re_search p t = None \<longleftrightarrow> \<not> (\<exists>pre bs. fits p bs \<and> prefix (pre @ concat bs) t)"
proof
  assume n: "re_search p t = None"
  show "\<not> (\<exists>pre bs. fits p bs \<and> prefix (pre @ concat bs) t)"
  proof
    assume "\<exists>pre bs. fits p bs \<and> prefix (pre @ concat bs) t"
    then obtain pre bs where f: "fits p bs" and pr: "prefix (pre @ concat bs) t" by blast
    from pr obtain r where t: "t = pre @ concat bs @ r" by (auto simp: prefix_def)
    then have "prefix (concat bs) (drop (length pre) t)" by simp
    from re_match_complete[OF f this] have "re_match p (drop (length pre) t) \<noteq> None" .
    moreover have "length pre \<le> length t" using t by simp
    ultimately show False using n re_search_None[THEN iffD1, of p t] by simp
  qed
next
  assume n: "\<not> (\<exists>pre bs. fits p bs \<and> prefix (pre @ concat bs) t)"
  show "re_search p t = None"
  proof (rule ccontr)
    assume "re_search p t \<noteq> None"
    then obtain i m where "re_search p t = Some (i, m)" by (cases "re_search p t") auto
    from re_search_Some[OF this] have i: "i \<le> length t" "re_match p (drop i t) = Some m" by simp_all
    obtain k cap where "m = (k, cap)" by (cases m)
    with i(2) re_match_sound[of p "drop i t" k cap] obtain bs where
      bs: "fits p bs" "concat bs = take k (drop i t)" by blast
    have "prefix (take i t @ take k (drop i t)) t"
      by (metis append_take_drop_id prefix_def append.assoc)
    with bs n show False by metis
  qed
qed

text \<open>
  C7 (as the code has it). The printed page number is read off the leftmost match of
  the pattern in the title text. When no part of the title has the shape of the pattern
  the result is \<open>None\<close>. Otherwise the first match captures a non-empty run of
  Arabic-Indic and ASCII digits; if the run has at most 4300 digits the result is its
  decimal value, and if it is longer \<open>int()\<close> refuses it and the result is
  \<open>None\<close>. The digit string U+0664 U+0662 U+0663 converts to \<open>"423"\<close>, and the
  title made of U+0635, a colon, U+0661, U+0662 and \<open>3\<close> yields 123.
\<close>

theorem extract_printed_page_number_first_match:
  "(re_search printed_page_pattern t = None \<longleftrightarrow>
      \<not> (\<exists>pre bs. fits printed_page_pattern bs \<and> prefix (pre @ concat bs) t)) \<and>
   (re_search printed_page_pattern t = None \<longrightarrow> extract_printed_page_number t = None) \<and>
   (\<forall>i n ds. re_search printed_page_pattern t = Some (i, n, ds) \<longrightarrow>
      re_match printed_page_pattern (drop i t) = Some (n, ds) \<and>
      (\<forall>j<i. re_match printed_page_pattern (drop j t) = None) \<and>
      ds \<noteq> [] \<and> list_all is_page_digit ds \<and>
      (length ds \<le> 4300 \<longrightarrow> extract_printed_page_number t = Some (int (digits_value ds))) \<and>
      (4300 < length ds \<longrightarrow> extract_printed_page_number t = None)) \<and>
   convert_arabic_hindi_digits [0x664, 0x662, 0x663] = ascii ''423'' \<and>
   py_int (convert_arabic_hindi_digits [0x664, 0x662, 0x663]) = Some 423 \<and>
   extract_printed_page_number [0x635, 0x3A, 0x661, 0x662, 0x33] = Some 123"
proof -
  have a: "(re_search printed_page_pattern t = None \<longleftrightarrow>
      \<not> (\<exists>pre bs. fits printed_page_pattern bs \<and> prefix (pre @ concat bs) t)) \<and>
      (re_search printed_page_pattern t = None \<longrightarrow> extract_printed_page_number t = None)"
    using extract_printed_page_number_None[of t] by (simp only: re_search_None_fits) blast
  have b: "\<forall>i n ds. re_search printed_page_pattern t = Some (i, n, ds) \<longrightarrow>
      re_match printed_page_pattern (drop i t) = Some (n, ds) \<and>
      (\<forall>j<i. re_match printed_page_pattern (drop j t) = None) \<and>
      ds \<noteq> [] \<and> list_all is_page_digit ds \<and>
      (length ds \<le> 4300 \<longrightarrow> extract_printed_page_number t = Some (int (digits_value ds))) \<and>
      (4300 < length ds \<longrightarrow> extract_printed_page_number t = None)"
  proof (intro allI impI)
    fix i n ds
    assume s: "re_search printed_page_pattern t = Some (i, n, ds)"
    show "re_match printed_page_pattern (drop i t) = Some (n, ds) \<and>
      (\<forall>j<i. re_match printed_page_pattern (drop j t) = None) \<and>
      ds \<noteq> [] \<and> list_all is_page_digit ds \<and>
      (length ds \<le> 4300 \<longrightarrow> extract_printed_page_number t = Some (int (digits_value ds))) \<and>
      (4300 < length ds \<longrightarrow> extract_printed_page_number t = None)"
      using extract_printed_page_number_match[OF s] by simp
  qed
  have c: "convert_arabic_hindi_digits [0x664, 0x662, 0x663] = ascii ''423''"
    by (simp add: convert_arabic_hindi_digits_map western_digit_def ascii_def)
  have d: "py_int (ascii ''423'') = Some 423"
    by (simp add: string_eval int_eval)
  have s: "re_search printed_page_pattern [0x635, 0x3A, 0x661, 0x662, 0x33]
           = Some (0, 5, [0x661, 0x662, 0x33])"
    by (simp add: printed_page_pattern_def regex_eval)
  have v: "digits_value [0x661, 0x662, 0x33] = 123"
    by (simp add: digits_value_def digit_val_def nd_block_def nd_starts_def)
  have e: "extract_printed_page_number [0x635, 0x3A, 0x661, 0x662, 0x33] = Some 123"
    using extract_printed_page_number_match(1)[OF s] v by simp
  show ?thesis using a b c d e by simp
qed

theorem extract_printed_page_number_first_match_witness:
  "re_search printed_page_pattern ([0x62, 0x20, 0x633, 0x20, 0xFF1A] @ ascii ''07x'')
     = Some (2, 5, ascii ''07'') \<and>
   extract_printed_page_number ([0x62, 0x20, 0x633, 0x20, 0xFF1A] @ ascii ''07x'') = Some 7 \<and>
   extract_printed_page_number (ascii ''page 12'') = None \<and>
   extract_printed_page_number (0x635 # replicate 4300 0x31)
     = Some (int (digits_value (replicate 4300 0x31)))"
proof -
  let ?t = "[0x62, 0x20, 0x633, 0x20, 0xFF1A] @ ascii ''07x''"
  have s: "re_search printed_page_pattern ?t = Some (2, 5, ascii ''07'')"
    by (simp add: printed_page_pattern_def regex_eval ascii_def)
  have v: "digits_value (ascii ''07'') = 7" "length (ascii ''07'') \<le> 4300"
    by (simp_all add: ascii_def digits_value_def digit_val_def nd_block_def nd_starts_def)
  from extract_printed_page_number_first_match[of ?t] s v
  have 1: "extract_printed_page_number ?t = Some 7" by simp
  have "re_search printed_page_pattern (ascii ''page 12'') = None"
    by (simp add: printed_page_pattern_def regex_eval ascii_def)
  with extract_printed_page_number_first_match[of "ascii ''page 12''"]
  have 2: "extract_printed_page_number (ascii ''page 12'') = None" by blast
  have "replicate 4300 (0x31::nat) \<noteq> []" "list_all is_page_digit (replicate 4300 0x31)"
    by (simp_all add: list_all_iff is_page_digit_def ascii_digit_def)
  then have "re_search printed_page_pattern (0x635 # replicate 4300 0x31)
      = Some (0, Suc (length (replicate 4300 (0x31::nat))), replicate 4300 0x31)"
    by (rule printed_page_search_plain)
  moreover have "length (replicate 4300 (0x31::nat)) \<le> 4300" by simp
  ultimately have 3: "extract_printed_page_number (0x635 # replicate 4300 0x31)
     = Some (int (digits_value (replicate 4300 0x31)))"
    using extract_printed_page_number_first_match[of "0x635 # replicate 4300 0x31"] by blast
  from s 1 2 3 show ?thesis by blast
qed

text \<open>
  The specification returns the integer of the first match whenever there is one. In
  the title that is U+0635 followed by 4301 times the digit \<open>1\<close> the pattern matches
  at the start and captures all the digits, but \<open>int()\<close> refuses so long a literal
  and the function returns \<open>None\<close>.
\<close>

theorem printed_page_number_too_long_counterexample:
  "re_search printed_page_pattern (0x635 # replicate 4301 0x31)
     = Some (0, 4302, replicate 4301 0x31) \<and>
   extract_printed_page_number (0x635 # replicate 4301 0x31) = None"
proof -
  have "replicate 4301 (0x31::nat) \<noteq> []" "list_all is_page_digit (replicate 4301 0x31)"
    by (simp_all add: list_all_iff is_page_digit_def ascii_digit_def)
  then have s: "re_search printed_page_pattern (0x635 # replicate 4301 0x31)
      = Some (0, Suc (length (replicate 4301 (0x31::nat))), replicate 4301 0x31)"
    by (rule printed_page_search_plain)
  have "4300 < length (replicate 4301 (0x31::nat))" by simp
  with extract_printed_page_number_match(5)[OF s]
  have "extract_printed_page_number (0x635 # replicate 4301 0x31) = None" .
  with s show ?thesis by simp
qed

section \<open>Properties: page records\<close>

lemma page_fields:
  "internal_index (extract_enhanced_page_content n h m soup) = Some n"
  "page_index_internal (extract_enhanced_page_content n h m soup) = Some n"
  "\<not> h \<Longrightarrow> page_number (extract_enhanced_page_content n h m soup) = n"
  "\<not> h \<Longrightarrow> \<not> printed_missing (extract_enhanced_page_content n h m soup)"
  "\<not> h \<Longrightarrow> original_page_number (extract_enhanced_page_content n h m soup) = None"
  "h \<Longrightarrow> original_page_number (extract_enhanced_page_content n h m soup)
          = extract_printed_page_number (title_text_of soup)"
  "h \<Longrightarrow> extract_printed_page_number (title_text_of soup) = Some k \<Longrightarrow>
     page_number (extract_enhanced_page_content n h m soup) = k \<and>
     \<not> printed_missing (extract_enhanced_page_content n h m soup)"
  "h \<Longrightarrow> extract_printed_page_number (title_text_of soup) = None \<Longrightarrow>
     page_number (extract_enhanced_page_content n h m soup) = n \<and>
     printed_missing (extract_enhanced_page_content n h m soup)"
  by (simp_all add: extract_enhanced_page_content_def Let_def)

text \<open>
  C1 (as the code has it). The page record follows the three cases of the
  dual-numbering rule. Hence the page number equals the internal index whenever the book
  has no original pagination or the printed number is missing; the converse does not
  hold, because a printed number that was extracted may itself equal the internal index:
  the page number equals the internal index exactly when there is no original
  pagination, or the printed number is missing, or the printed number is the internal
  index.
\<close>

theorem page_numbering_rule:
  "internal_index (extract_enhanced_page_content n h m soup) = Some n \<and>
   (\<not> h \<longrightarrow> page_number (extract_enhanced_page_content n h m soup) = n \<and>
           \<not> printed_missing (extract_enhanced_page_content n h m soup)) \<and>
   (h \<longrightarrow> (\<forall>k. extract_printed_page_number (title_text_of soup) = Some k \<longrightarrow>
           page_number (extract_enhanced_page_content n h m soup) = k \<and>
           original_page_number (extract_enhanced_page_content n h m soup) = Some k \<and>
           \<not> printed_missing (extract_enhanced_page_content n h m soup))) \<and>
   (h \<and> extract_printed_page_number (title_text_of soup) = None \<longrightarrow>
           page_number (extract_enhanced_page_content n h m soup) = n \<and>
           printed_missing (extract_enhanced_page_content n h m soup)) \<and>
   (\<not> h \<or> printed_missing (extract_enhanced_page_content n h m soup) \<longrightarrow>
      Some (page_number (extract_enhanced_page_content n h m soup))
        = internal_index (extract_enhanced_page_content n h m soup)) \<and>
   (Some (page_number (extract_enhanced_page_content n h m soup))
        = internal_index (extract_enhanced_page_content n h m soup) \<longleftrightarrow>
      \<not> h \<or> printed_missing (extract_enhanced_page_content n h m soup) \<or>
      original_page_number (extract_enhanced_page_content n h m soup) = Some n)"
proof (cases h)
  case False
  then show ?thesis by (simp add: page_fields)
next
  case True
  show ?thesis
  proof (cases "extract_printed_page_number (title_text_of soup)")
    case None
    with True show ?thesis by (simp add: page_fields)
  next
    case (Some k)
    with True show ?thesis by (auto simp: page_fields)
  qed
qed

lemma title_sad_5:
  "extract_printed_page_number [0x635, 0x3A, 0x20, 0x35] = Some 5"
proof -
  have s: "re_search printed_page_pattern [0x635, 0x3A, 0x20, 0x35] = Some (0, 4, [0x35])"
    by (simp add: printed_page_pattern_def regex_eval)
  have "digits_value [0x35] = 5"
    by (simp add: digits_value_def digit_val_def nd_block_def nd_starts_def)
  with extract_printed_page_number_match(1)[OF s] show ?thesis by simp
qed

theorem page_numbering_rule_witness:
  "page_number (extract_enhanced_page_content 7 True True
       \<lparr>title_tag = Some [0x635, 0x3A, 0x20, 0x35], body_text = [], body_html = []\<rparr>) = 5 \<and>
   \<not> printed_missing (extract_enhanced_page_content 7 True True
       \<lparr>title_tag = Some [0x635, 0x3A, 0x20, 0x35], body_text = [], body_html = []\<rparr>) \<and>
   page_number (extract_enhanced_page_content 7 True True
       \<lparr>title_tag = None, body_text = [], body_html = []\<rparr>) = 7 \<and>
   printed_missing (extract_enhanced_page_content 7 True True
       \<lparr>title_tag = None, body_text = [], body_html = []\<rparr>) \<and>
   page_number (extract_enhanced_page_content 7 False True
       \<lparr>title_tag = Some [0x635, 0x3A, 0x20, 0x35], body_text = [], body_html = []\<rparr>) = 7"
proof -
  let ?a = "\<lparr>title_tag = Some [0x635, 0x3A, 0x20, 0x35], body_text = [], body_html = []\<rparr>"
  let ?b = "\<lparr>title_tag = None, body_text = [], body_html = []\<rparr>"
  have ta: "extract_printed_page_number (title_text_of ?a) = Some 5"
    by (simp add: title_text_of_def title_sad_5)
  have tb: "extract_printed_page_number (title_text_of ?b) = None"
    by (simp add: title_text_of_def extract_printed_page_number_def)
  from page_numbering_rule[of 7 True True ?a] ta
  have 1: "page_number (extract_enhanced_page_content 7 True True ?a) = 5 \<and>
           \<not> printed_missing (extract_enhanced_page_content 7 True True ?a)" by simp
  from page_numbering_rule[of 7 True True ?b] tb
  have 2: "page_number (extract_enhanced_page_content 7 True True ?b) = 7 \<and>
           printed_missing (extract_enhanced_page_content 7 True True ?b)" by simp
  from page_numbering_rule[of 7 False True ?a]
  have 3: "page_number (extract_enhanced_page_content 7 False True ?a) = 7" by simp
  from 1 2 3 show ?thesis by simp
qed

text \<open>
  Invariant 3 of the specification states an equivalence. Page 5 of a book with
  original pagination whose title reads U+0635, colon, space, \<open>5\<close> has page number 5
  and internal index 5, although the book has original pagination and the printed number
  is not missing.
\<close>

theorem page_numbering_iff_counterexample:
  "\<not> (Some (page_number (extract_enhanced_page_content 5 True True
            \<lparr>title_tag = Some [0x635, 0x3A, 0x20, 0x35], body_text = [], body_html = []\<rparr>))
        = internal_index (extract_enhanced_page_content 5 True True
            \<lparr>title_tag = Some [0x635, 0x3A, 0x20, 0x35], body_text = [], body_html = []\<rparr>)
      \<longleftrightarrow>
      True = False \<or>
      printed_missing (extract_enhanced_page_content 5 True True
            \<lparr>title_tag = Some [0x635, 0x3A, 0x20, 0x35], body_text = [], body_html = []\<rparr>)
        = True)"
proof -
  let ?a = "\<lparr>title_tag = Some [0x635, 0x3A, 0x20, 0x35], body_text = [], body_html = []\<rparr>"
  have ta: "extract_printed_page_number (title_text_of ?a) = Some 5"
    by (simp add: title_text_of_def title_sad_5)
  have "page_number (extract_enhanced_page_content 5 True True ?a) = 5"
    "\<not> printed_missing (extract_enhanced_page_content 5 True True ?a)"
    "internal_index (extract_enhanced_page_content 5 True True ?a) = Some 5"
    using ta by (simp_all add: page_fields)
  then show ?thesis by simp
qed

section \<open>Properties: which pages are kept, and in which order\<close>


























section \<open>Properties: the title\<close>

lemma title_loop_candidates:
  "title_loop sel acc ss =
     (case find (\<lambda>t. 3 < length t) (candidate_titles sel ss) of
        Some t \<Rightarrow> t
      | None \<Rightarrow> if candidate_titles sel ss = [] then acc else last (candidate_titles sel ss))"
proof (induction ss arbitrary: acc)
  case Nil
  show ?case by (simp add: candidate_titles_def map_filter_simps)
next
  case (Cons s ss)
  show ?case
  proof (cases "sel s")
    case None
    then have "candidate_titles sel (s # ss) = candidate_titles sel ss"
      by (simp add: candidate_titles_def map_filter_simps)
    with None Cons show ?thesis by (simp cong: option.case_cong)
  next
    case (Some raw)
    then have c: "candidate_titles sel (s # ss) = clean_text raw # candidate_titles sel ss"
      by (simp add: candidate_titles_def map_filter_simps)
    show ?thesis
    proof (cases "3 < length (clean_text raw)")
      case True
      with Some c show ?thesis by (simp add: Let_def)
    next
      case False
      with Some c Cons[of "clean_text raw"] show ?thesis
        by (simp add: Let_def split: option.splits cong: option.case_cong)
    qed
  qed
qed

text \<open>
  C6 (as the code has it). The selectors are tried in the order \<open>h1.book-title\<close>,
  \<open>h1\<close>, \<open>.book-title\<close>, \<open>title\<close>. The title is the first cleaned text longer
  than 3 characters if there is one; otherwise it is the cleaned text of the last
  selector that matched an element, whatever its length. Extraction fails exactly when
  no selector matched or that last text is empty.
\<close>

theorem extract_title_cases:
  "title_selectors = [ascii ''h1.book-title'', ascii ''h1'', ascii ''.book-title'', ascii ''title''] \<and>
   (\<forall>t. find (\<lambda>t. 3 < length t) (candidate_titles select_one title_selectors) = Some t \<longrightarrow>
      extract_title select_one = Inr t) \<and>
   (find (\<lambda>t. 3 < length t) (candidate_titles select_one title_selectors) = None \<and>
    candidate_titles select_one title_selectors \<noteq> [] \<and>
    last (candidate_titles select_one title_selectors) \<noteq> [] \<longrightarrow>
      extract_title select_one = Inr (last (candidate_titles select_one title_selectors))) \<and>
   (extract_title select_one = Inl EnhancedShamelaScraperError \<longleftrightarrow>
      find (\<lambda>t. 3 < length t) (candidate_titles select_one title_selectors) = None \<and>
      (candidate_titles select_one title_selectors = [] \<or>
       last (candidate_titles select_one title_selectors) = []))"
proof -
  let ?c = "candidate_titles select_one title_selectors"
  have long: "t \<noteq> []" if "find (\<lambda>t. 3 < length t) ?c = Some t" for t
  proof -
    from that have "3 < length t" by (auto simp: find_Some_iff)
    then show ?thesis by auto
  qed
  show ?thesis
  proof (cases "find (\<lambda>t. 3 < length t) ?c")
    case None
    then show ?thesis
      by (auto simp: extract_title_def title_loop_candidates Let_def title_selectors_def)
  next
    case (Some t)
    with long[OF Some] show ?thesis
      by (auto simp: extract_title_def title_loop_candidates Let_def title_selectors_def)
  qed
qed

lemma short_title_candidates:
  "candidate_titles short_title_page title_selectors = [ascii ''ab'']"
proof -
  have "clean_text (ascii ''ab'') = ascii ''ab''"
    by (simp add: clean_text_def py_strip_def is_space_def is_crlftab_def replace_char_def
        ascii_def)
  then show ?thesis
    by (simp add: candidate_titles_def title_selectors_def map_filter_simps short_title_page_def
        ascii_def)
qed

theorem extract_title_cases_witness:
  "extract_title short_title_page = Inr (ascii ''ab'') \<and>
   extract_title (\<lambda>selector. None) = Inl EnhancedShamelaScraperError"
proof -
  have f: "find (\<lambda>t. 3 < length t) (candidate_titles short_title_page title_selectors) = None \<and>
      candidate_titles short_title_page title_selectors \<noteq> [] \<and>
      last (candidate_titles short_title_page title_selectors) \<noteq> []"
    by (simp add: short_title_candidates ascii_def)
  from extract_title_cases[of short_title_page] f
  have 1: "extract_title short_title_page = Inr (ascii ''ab'')"
    by (simp add: short_title_candidates)
  have e: "candidate_titles (\<lambda>selector. None) title_selectors = []"
    by (simp add: candidate_titles_def title_selectors_def map_filter_simps)
  from extract_title_cases[of "\<lambda>selector. None"] e
  have 2: "extract_title (\<lambda>selector. None) = Inl EnhancedShamelaScraperError" by simp
  from 1 2 show ?thesis by simp
qed

text \<open>
  The specification never lets a title of three characters or fewer through. A page
  whose only candidate is a \<open><title>\<close> element reading \<open>ab\<close> gets the title
  \<open>ab\<close>.
\<close>

theorem short_title_counterexample:
  "extract_title short_title_page = Inr (ascii ''ab'') \<and> length (ascii ''ab'') \<le> 3"
proof -
  have "clean_text (ascii ''ab'') = ascii ''ab''"
    by (simp add: clean_text_def py_strip_def is_space_def is_crlftab_def replace_char_def
        ascii_def)
  then have "title_loop short_title_page [] title_selectors = ascii ''ab''"
    by (simp add: title_selectors_def short_title_page_def ascii_def)
  then show ?thesis by (simp add: extract_title_def ascii_def)
qed

section \<open>More properties of matches and of \<open>int()\<close>\<close>


lemma fits_group_nonempty:
  "fits p bs \<Longrightarrow> \<exists>it \<in> set p. grp it \<and> 0 < lo it \<Longrightarrow> group1 p bs \<noteq> []"
proof (induction p bs rule: fits.induct)
  case (2 c l h g p b bs)
  then show ?case by (cases "g \<and> 0 < l") auto
qed simp_all






lemma re_search_fits:
  assumes "re_search p t = Some (i, n, cap)"
  obtains bs where "fits p bs" "take n (drop i t) = concat bs" "cap = group1 p bs"
proof -
  from re_search_Some[OF assms] have "re_match p (drop i t) = Some (n, cap)" by simp
  from re_match_sound[OF this] show ?thesis using that by metis
qed




lemma startswith_append:
  assumes "startswith s p"
  shows "startswith (s @ ys) p"
proof -
  from assms have "s = p @ drop (length p) s"
    unfolding startswith_def by (metis append_take_drop_id)
  then have "s @ ys = p @ (drop (length p) s @ ys)" by (metis append.assoc)
  then show ?thesis unfolding startswith_def by (metis append_eq_conv_conj)
qed

lemma contains_append_left: "contains xs p \<Longrightarrow> contains (xs @ ys) p"
proof (induction xs)
  case Nil
  then have "p = []" by simp
  then show ?case by (cases ys) (simp_all add: startswith_def)
next
  case (Cons x xs)
  then show ?case using startswith_append[of "x # xs" p ys] by auto
qed

section \<open>Properties: the year of publication\<close>


















section \<open>Properties: the number of an edition\<close>

lemma startswith_contains: "startswith s p \<Longrightarrow> contains s p"
  by (cases s) (auto simp: startswith_def)

lemma word_loop_find:
  "word_loop ws t = map_option snd (find (\<lambda>(w, k). contains t w) ws)"
  by (induction ws) auto

lemma fits_needs:
  "fits p bs \<Longrightarrow> it \<in> set p \<Longrightarrow> 0 < lo it \<Longrightarrow> \<exists>x \<in> set (concat bs). cls it x"
proof (induction p bs rule: fits.induct)
  case (2 c l h g p b bs)
  show ?case
  proof (cases "it = Item c l h g")
    case True
    with "2.prems" have "list_all c b" "b \<noteq> []" by auto
    then have "c (hd b)" "hd b \<in> set b" by (auto simp: list_all_iff)
    with True show ?thesis by auto
  next
    case False
    with 2 show ?thesis by auto
  qed
qed simp_all

lemma re_search_needs:
  assumes "it \<in> set p" "0 < lo it" "\<forall>x \<in> set t. \<not> cls it x"
  shows "re_search p t = None"
proof (rule ccontr)
  assume "re_search p t \<noteq> None"
  then obtain i n cap where "re_search p t = Some (i, n, cap)"
    by (cases "re_search p t") auto
  from re_search_fits[OF this] obtain bs where
    bs: "fits p bs" "take n (drop i t) = concat bs" by metis
  from fits_needs[OF bs(1) assms(1,2)] obtain x where "x \<in> set (concat bs)" "cls it x" by auto
  moreover have "set (concat bs) \<subseteq> set t"
    using bs(2) by (metis set_take_subset set_drop_subset subset_trans)
  ultimately show False using assms(3) by auto
qed

lemma pattern_loop_None:
  "\<forall>p \<in> set ps. re_search p t = None \<Longrightarrow> pattern_loop ps t = None"
  by (induction ps) auto

lemma pattern_loop_skip:
  "\<forall>p \<in> set ps. \<not> list_ex grp p \<Longrightarrow> pattern_loop (ps @ qs) t = pattern_loop qs t"
  by (induction ps) (auto split: option.splits)

lemma edition_patterns_need_ta:
  "p \<in> set edition_number_patterns \<Longrightarrow> lit ta \<in> set p"
  by (auto simp: edition_number_patterns_def word_to_number_def lits_def al_taba_def taba_def
      ta_def)

lemma ordinal_patterns_no_group:
  "\<forall>p \<in> set (map (\<lambda>(word, number). lits al_taba @ [Item is_space 1 None False] @ lits word)
       word_to_number). \<not> list_ex grp p"
  by (simp add: word_to_number_def lits_def lit_def al_taba_def)

lemma re_search_digits:
  "re_search [digits_group] s =
     (if dropWhile (\<lambda>c. \<not> is_decimal c) s = [] then None
      else Some (length (takeWhile (\<lambda>c. \<not> is_decimal c) s),
                 length (takeWhile is_decimal (dropWhile (\<lambda>c. \<not> is_decimal c) s)),
                 takeWhile is_decimal (dropWhile (\<lambda>c. \<not> is_decimal c) s)))"
proof (induction s)
  case Nil
  show ?case by (simp add: digits_group_def re_match_single)
next
  case (Cons c s)
  then show ?case
    by (cases "is_decimal c") (simp_all add: digits_group_def re_match_single)
qed

lemma first_integer_search:
  assumes "length (takeWhile is_decimal (dropWhile (\<lambda>c. \<not> is_decimal c) s)) \<le> 4300"
  shows "(case re_search [digits_group] s of
      Some (start, len, number) \<Rightarrow> py_int number
    | None \<Rightarrow> None) = first_integer s"
proof (cases "dropWhile (\<lambda>c. \<not> is_decimal c) s = []")
  case True
  then show ?thesis by (simp add: re_search_digits first_integer_def)
next
  case False
  let ?r = "dropWhile (\<lambda>c. \<not> is_decimal c) s"
  from False have "is_decimal (hd ?r)" using hd_dropWhile[of "\<lambda>c. \<not> is_decimal c" s] by simp
  with False have "takeWhile is_decimal ?r \<noteq> []" by (cases ?r) auto
  moreover have "list_all is_decimal (takeWhile is_decimal ?r)"
    by (auto simp: list_all_iff dest: set_takeWhileD)
  ultimately have "py_int (takeWhile is_decimal ?r)
      = Some (int (digits_value (takeWhile is_decimal ?r)))"
    using assms by (rule py_int_decimal)
  with False show ?thesis by (simp add: re_search_digits first_integer_def Let_def)
qed

lemma strip_decompose:
  obtains a b where "s = a @ py_strip s @ b" "list_all is_space a" "list_all is_space b"
proof -
  let ?m = "dropWhile is_space s"
  have 1: "s = takeWhile is_space s @ ?m" by simp
  have "rev ?m = takeWhile is_space (rev ?m) @ dropWhile is_space (rev ?m)" by simp
  then have "?m = rev (dropWhile is_space (rev ?m)) @ rev (takeWhile is_space (rev ?m))"
    by (metis rev_append rev_rev_ident)
  then have 2: "?m = py_strip s @ rev (takeWhile is_space (rev ?m))"
    by (simp add: py_strip_def)
  have 3: "list_all is_space (takeWhile is_space s)"
    "list_all is_space (rev (takeWhile is_space (rev ?m)))"
    by (auto simp: list_all_iff dest: set_takeWhileD)
  from 1 2 have "s = takeWhile is_space s @ py_strip s @ rev (takeWhile is_space (rev ?m))"
    by metis
  with 3 show ?thesis using that by blast
qed

lemma first_integer_padding:
  assumes "list_all is_space a" "list_all is_space b"
  shows "first_integer (a @ m @ b) = first_integer m"
proof -
  let ?N = "\<lambda>c. \<not> is_decimal c"
  have na: "\<forall>x \<in> set a. ?N x" and nb: "\<forall>x \<in> set b. ?N x"
    using assms is_decimal_plain(1) by (auto simp: list_all_iff)
  have front: "dropWhile ?N (a @ m @ b) = dropWhile ?N (m @ b)"
    using na by (simp add: dropWhile_append2)
  show ?thesis
  proof (cases "\<forall>x \<in> set m. ?N x")
    case True
    then have "dropWhile ?N (m @ b) = dropWhile ?N b" by (simp add: dropWhile_append2)
    also have "\<dots> = []" using nb by simp
    finally have "dropWhile ?N (a @ m @ b) = []" using front by simp
    moreover have "dropWhile ?N m = []" using True by simp
    ultimately show ?thesis by (simp add: first_integer_def)
  next
    case False
    then obtain x where "x \<in> set m" "\<not> ?N x" by blast
    then have d: "dropWhile ?N (m @ b) = dropWhile ?N m @ b"
      by (intro dropWhile_append1) auto
    let ?r = "dropWhile ?N m"
    have r: "?r \<noteq> []" using False by simp
    have t: "takeWhile is_decimal (?r @ b) = takeWhile is_decimal ?r"
    proof (cases "\<forall>x \<in> set ?r. is_decimal x")
      case True
      then have "takeWhile is_decimal (?r @ b) = ?r @ takeWhile is_decimal b"
        by (intro takeWhile_append2) blast
      moreover have "takeWhile is_decimal b = []" using nb by (cases b) auto
      moreover have "takeWhile is_decimal ?r = ?r"
        using True by (simp only: takeWhile_eq_all_conv)
      ultimately show ?thesis by (simp only: append_Nil2)
    next
      case False
      then obtain y where y: "y \<in> set ?r" "\<not> is_decimal y" by blast
      show ?thesis using y by (rule takeWhile_append1)
    qed
    have dd: "dropWhile ?N (a @ m @ b) = ?r @ b" by (simp only: front d)
    have "?r @ b \<noteq> []" using r by simp
    then have "first_integer (a @ m @ b)
        = Some (int (digits_value (takeWhile is_decimal (?r @ b))))"
      unfolding first_integer_def Let_def dd by (rule if_not_P)
    also have "\<dots> = Some (int (digits_value (takeWhile is_decimal ?r)))" by (simp only: t)
    also have "\<dots> = first_integer m"
      using r by (simp add: first_integer_def Let_def)
    finally show ?thesis .
  qed
qed

lemma first_integer_strip: "first_integer (py_strip s) = first_integer s"
proof -
  obtain a b where "s = a @ py_strip s @ b" "list_all is_space a" "list_all is_space b"
    by (rule strip_decompose)
  then show ?thesis using first_integer_padding[of a b "py_strip s"] by simp
qed

lemma py_strip_subset: "set (py_strip s) \<subseteq> set s"
proof -
  have "set (py_strip s) \<subseteq> set (dropWhile is_space s)"
    unfolding py_strip_def using set_dropWhileD[of _ is_space "rev (dropWhile is_space s)"]
    by auto
  also have "\<dots> \<subseteq> set s" using set_dropWhileD[of _ is_space s] by auto
  finally show ?thesis .
qed

lemma py_strip_Nil: "py_strip [] = []"
  by (simp add: py_strip_def)

end
